theory Spec2Isabelle
  imports Main
begin

section \<open>The merge step of \<open>groopm/stream_ext.pyx\<close>\<close>

text \<open>
  The module holds one function, \<open>merge\<close>, an untyped \<open>def\<close>: its arguments are
  Python objects. The lengths, the cursors and the loop counter are Python integers
  (\<open>int\<close>, unbounded); the six buffers are mutable sequences, passed by reference. The
  function returns nothing: its whole effect is the mutation of \<open>out\<close> and \<open>out_inds\<close>.

  The model keeps the buffers in a store (a buffer is an address, the store maps it to
  its current contents), so that two arguments can be the same object. A subscript out
  of range raises \<open>IndexError\<close>; the exception leaves the function with the store as it
  is at that moment, so an abrupt outcome carries the state too. The elements are of one
  linearly ordered type \<open>'v\<close> (the source compares them with \<open><\<close>).
\<close>

subsection \<open>Subscripts\<close>

datatype py_error = IndexError

text \<open>\<open>xs[n]\<close>: a negative subscript counts from the end; out of range raises.\<close>

definition getitem :: "'v list \<Rightarrow> int \<Rightarrow> py_error + 'v" where
  "getitem xs n =
     (let len = int (length xs); m = (if n < 0 then len + n else n)
      in if 0 \<le> m \<and> m < len then Inr (xs ! nat m) else Inl IndexError)"

text \<open>\<open>xs[n] = v\<close>, returning the updated contents.\<close>

definition setitem :: "'v list \<Rightarrow> int \<Rightarrow> 'v \<Rightarrow> py_error + 'v list" where
  "setitem xs n v =
     (let len = int (length xs); m = (if n < 0 then len + n else n)
      in if 0 \<le> m \<and> m < len then Inr (xs[nat m := v]) else Inl IndexError)"

subsection \<open>State\<close>

text \<open>
  The six buffer parameters, as the roles under which an access is recorded, and the
  accesses themselves: a subscript read or a subscript write, with the subscript.
\<close>

datatype buf = X | X_inds | Y | Y_inds | Out | Out_inds

datatype access = Rd buf int | Wr buf int

text \<open>
  The state of a call: the store, the two cursors (the locals \<open>i\<close> and \<open>j\<close>), and the
  subscript operations performed so far, in order. The last field is an observation of
  the run; nothing in the control flow reads it.
\<close>

record 'v mstate =
  heap :: "nat \<Rightarrow> 'v list"
  ci :: int
  cj :: int
  accesses :: "access list"

type_synonym ('v, 'a) outcome = "(py_error \<times> 'v mstate) + 'a"

definition bind_exc :: "('v, 'a) outcome \<Rightarrow> ('a \<Rightarrow> ('v, 'b) outcome) \<Rightarrow> ('v, 'b) outcome" where
  "bind_exc m f = (case m of Inl e \<Rightarrow> Inl e | Inr a \<Rightarrow> f a)"

text \<open>Reading \<open>b[n]\<close>, where the parameter of role \<open>b\<close> is the buffer at address \<open>r\<close>.\<close>

definition rd :: "buf \<Rightarrow> nat \<Rightarrow> int \<Rightarrow> 'v mstate \<Rightarrow> ('v, 'v \<times> 'v mstate) outcome" where
  "rd b r n s =
     (let s' = s\<lparr>accesses := accesses s @ [Rd b n]\<rparr>
      in case getitem (heap s r) n of
           Inl e \<Rightarrow> Inl (e, s')
         | Inr v \<Rightarrow> Inr (v, s'))"

text \<open>Writing \<open>b[n] = v\<close>.\<close>

definition wr :: "buf \<Rightarrow> nat \<Rightarrow> int \<Rightarrow> 'v \<Rightarrow> 'v mstate \<Rightarrow> ('v, 'v mstate) outcome" where
  "wr b r n v s =
     (let s' = s\<lparr>accesses := accesses s @ [Wr b n]\<rparr>
      in case setitem (heap s r) n v of
           Inl e \<Rightarrow> Inl (e, s')
         | Inr l \<Rightarrow> Inr (s'\<lparr>heap := (heap s)(r := l)\<rparr>))"

subsection \<open>The function\<close>

text \<open>
  The test \<open>j < y_len and (i==x_len or y[j] < x[i])\<close>. Both \<open>and\<close> and \<open>or\<close> evaluate
  their right operand only when the left one does not decide; \<open>y[j]\<close> is evaluated
  before \<open>x[i]\<close>.
\<close>

definition merge_test ::
  "int \<Rightarrow> nat \<Rightarrow> int \<Rightarrow> nat \<Rightarrow> ('v::linorder) mstate \<Rightarrow> ('v, bool \<times> 'v mstate) outcome" where
  "merge_test x_len x y_len y s =
     (if cj s < y_len then
        (if ci s = x_len then Inr (True, s)
         else bind_exc (rd Y y (cj s) s) (\<lambda>(yv, s1).
              bind_exc (rd X x (ci s1) s1) (\<lambda>(xv, s2).
              Inr (yv < xv, s2))))
      else Inr (False, s))"

text \<open>The body of the loop, at output position \<open>k\<close>.\<close>

definition merge_body ::
  "int \<Rightarrow> nat \<Rightarrow> nat \<Rightarrow> int \<Rightarrow> nat \<Rightarrow> nat \<Rightarrow> nat \<Rightarrow> nat \<Rightarrow> int \<Rightarrow>
   ('v::linorder) mstate \<Rightarrow> ('v, 'v mstate) outcome" where
  "merge_body x_len x x_inds y_len y y_inds out out_inds k s =
     bind_exc (merge_test x_len x y_len y s) (\<lambda>(t, s0).
       if t then
         bind_exc (rd Y y (cj s0) s0) (\<lambda>(v, s1).
         bind_exc (wr Out out k v s1) (\<lambda>s2.
         bind_exc (rd Y_inds y_inds (cj s2) s2) (\<lambda>(w, s3).
         bind_exc (wr Out_inds out_inds k w s3) (\<lambda>s4.
         Inr (s4\<lparr>cj := cj s4 + 1\<rparr>)))))
       else
         bind_exc (rd X x (ci s0) s0) (\<lambda>(v, s1).
         bind_exc (wr Out out k v s1) (\<lambda>s2.
         bind_exc (rd X_inds x_inds (ci s2) s2) (\<lambda>(w, s3).
         bind_exc (wr Out_inds out_inds k w s3) (\<lambda>s4.
         Inr (s4\<lparr>ci := ci s4 + 1\<rparr>))))))"

text \<open>\<open>range(n)\<close>: the integers \<open>0, \<dots>, n - 1\<close>, none when \<open>n \<le> 0\<close>.\<close>

definition range_py :: "int \<Rightarrow> int list" where
  "range_py n = map int [0..<nat n]"

text \<open>The \<open>for\<close> loop over a list of positions; an exception ends it.\<close>

primrec merge_loop ::
  "int \<Rightarrow> nat \<Rightarrow> nat \<Rightarrow> int \<Rightarrow> nat \<Rightarrow> nat \<Rightarrow> nat \<Rightarrow> nat \<Rightarrow> int list \<Rightarrow>
   ('v::linorder) mstate \<Rightarrow> ('v, 'v mstate) outcome" where
  "merge_loop x_len x x_inds y_len y y_inds out out_inds [] s = Inr s"
| "merge_loop x_len x x_inds y_len y y_inds out out_inds (k # ks) s =
     bind_exc (merge_body x_len x x_inds y_len y y_inds out out_inds k s)
       (merge_loop x_len x x_inds y_len y y_inds out out_inds ks)"

text \<open>
  The call, in the store \<open>h\<close>. The parameters are in the order of the source; the model
  returns the state in which the call ends, normally (\<open>Inr\<close>) or by an exception (\<open>Inl\<close>).
\<close>

definition merge ::
  "int \<Rightarrow> nat \<Rightarrow> nat \<Rightarrow> int \<Rightarrow> nat \<Rightarrow> nat \<Rightarrow> int \<Rightarrow> nat \<Rightarrow> nat \<Rightarrow> int \<Rightarrow> int \<Rightarrow>
   (nat \<Rightarrow> ('v::linorder) list) \<Rightarrow> ('v, 'v mstate) outcome" where
  "merge x_len x x_inds y_len y y_inds out_len out out_inds i j h =
     merge_loop x_len x x_inds y_len y y_inds out out_inds (range_py out_len)
       \<lparr>heap = h, ci = i, cj = j, accesses = []\<rparr>"

text \<open>The state in which a call ends, whichever way.\<close>

definition final :: "('v, 'v mstate) outcome \<Rightarrow> 'v mstate" where
  "final r = (case r of Inl (e, s) \<Rightarrow> s | Inr s \<Rightarrow> s)"

definition returns :: "('v, 'a) outcome \<Rightarrow> bool" where
  "returns r = (case r of Inl e \<Rightarrow> False | Inr a \<Rightarrow> True)"

subsection \<open>The scenario of the specification\<close>

text \<open>
  The store of the scenario: \<open>x\<close>, \<open>x_inds\<close>, \<open>y\<close>, \<open>y_inds\<close> at the addresses 0 to 3, and
  two output buffers at 4 and 5, of \<open>n\<close> cells filled with a sentinel.
\<close>

definition scenario :: "nat \<Rightarrow> nat \<Rightarrow> int list" where
  "scenario n = (\<lambda>r. [])
     (0 := [1, 3, 5], 1 := [10, 11, 12], 2 := [2, 3, 6], 3 := [20, 21, 22],
      4 := replicate n (-1), 5 := replicate n (-1))"

section \<open>Notions used in the statements\<close>

subsection \<open>The contract of a call\<close>

text \<open>
  The output buffers are objects of their own: \<open>out\<close> and \<open>out_inds\<close> differ from each
  other and from the four input buffers. (The input buffers may coincide with one
  another; they are only read.)
\<close>

definition separate :: "nat \<Rightarrow> nat \<Rightarrow> nat \<Rightarrow> nat \<Rightarrow> nat \<Rightarrow> nat \<Rightarrow> bool" where
  "separate x x_inds y y_inds out out_inds =
     (out \<noteq> out_inds \<and> out \<notin> {x, x_inds, y, y_inds} \<and> out_inds \<notin> {x, x_inds, y, y_inds})"

text \<open>
  What the specification asks of the caller: the starting cursors are within their runs,
  \<open>out_len\<close> is at most what remains of the two runs together, every buffer holds at
  least its declared length (the output buffers at least \<open>out_len\<close> cells), and the
  output buffers are separate objects.
\<close>

definition merge_pre ::
  "int \<Rightarrow> nat \<Rightarrow> nat \<Rightarrow> int \<Rightarrow> nat \<Rightarrow> nat \<Rightarrow> int \<Rightarrow> nat \<Rightarrow> nat \<Rightarrow> int \<Rightarrow> int \<Rightarrow>
   (nat \<Rightarrow> 'v list) \<Rightarrow> bool" where
  "merge_pre x_len x x_inds y_len y y_inds out_len out out_inds i j h =
     (0 \<le> i \<and> i \<le> x_len \<and> 0 \<le> j \<and> j \<le> y_len \<and>
      out_len \<le> (x_len - i) + (y_len - j) \<and>
      x_len \<le> int (length (h x)) \<and> x_len \<le> int (length (h x_inds)) \<and>
      y_len \<le> int (length (h y)) \<and> y_len \<le> int (length (h y_inds)) \<and>
      out_len \<le> int (length (h out)) \<and> out_len \<le> int (length (h out_inds)) \<and>
      separate x x_inds y y_inds out out_inds)"

subsection \<open>Reading the record of accesses\<close>

text \<open>
  An access is in bounds when, if it reads a run, the subscript is a position of that
  run, and, if it writes, it writes an output buffer at a position below \<open>out_len\<close>.
  Nothing reads an output buffer.
\<close>

definition in_bounds :: "int \<Rightarrow> int \<Rightarrow> int \<Rightarrow> access \<Rightarrow> bool" where
  "in_bounds x_len y_len out_len a =
     (case a of
        Rd b n \<Rightarrow>
          (b = X \<or> b = X_inds \<longrightarrow> 0 \<le> n \<and> n < x_len) \<and>
          (b = Y \<or> b = Y_inds \<longrightarrow> 0 \<le> n \<and> n < y_len) \<and>
          b \<noteq> Out \<and> b \<noteq> Out_inds
      | Wr b n \<Rightarrow> (b = Out \<or> b = Out_inds) \<and> 0 \<le> n \<and> n < out_len)"

text \<open>The same for the writes alone.\<close>

definition write_within :: "int \<Rightarrow> access \<Rightarrow> bool" where
  "write_within out_len a =
     (case a of
        Rd b n \<Rightarrow> True
      | Wr b n \<Rightarrow> (b = Out \<or> b = Out_inds) \<and> 0 \<le> n \<and> n < out_len)"

text \<open>The writes to \<open>out\<close>, in order: one for each iteration that got that far.\<close>

definition is_out_write :: "access \<Rightarrow> bool" where
  "is_out_write a = (case a of Rd b n \<Rightarrow> False | Wr b n \<Rightarrow> b = Out)"

definition out_writes :: "access list \<Rightarrow> access list" where
  "out_writes as = filter is_out_write as"

text \<open>
  The reads of \<open>x_inds\<close> and \<open>y_inds\<close>, in order. The body reads one index in each
  iteration, from the run it emits and at that run's cursor, so the \<open>k\<close>-th of them tells
  where output position \<open>k\<close> came from.
\<close>

definition is_inds_read :: "access \<Rightarrow> bool" where
  "is_inds_read a = (case a of Rd b n \<Rightarrow> b = X_inds \<or> b = Y_inds | Wr b n \<Rightarrow> False)"

definition emitted :: "access list \<Rightarrow> access list" where
  "emitted as = filter is_inds_read as"

definition from_x :: "access \<Rightarrow> bool" where
  "from_x a = (case a of Rd b n \<Rightarrow> b = X_inds | Wr b n \<Rightarrow> False)"

definition from_y :: "access \<Rightarrow> bool" where
  "from_y a = (case a of Rd b n \<Rightarrow> b = Y_inds | Wr b n \<Rightarrow> False)"

section \<open>Notions used in the proofs\<close>

subsection \<open>Any call\<close>

text \<open>
  A property of an outcome: \<open>Q\<close> of the result when it is normal, \<open>E\<close> of the state
  when it is an exception.
\<close>

definition sat :: "('v, 'a) outcome \<Rightarrow> ('a \<Rightarrow> bool) \<Rightarrow> ('v mstate \<Rightarrow> bool) \<Rightarrow> bool" where
  "sat m Q E = (case m of Inr a \<Rightarrow> Q a | Inl (e, s) \<Rightarrow> E s)"

text \<open>
  The accesses iteration \<open>k\<close> may make from the state \<open>s\<close>: it reads X only at its
  cursor and not when X is exhausted while Y is not, it reads Y only at its cursor and
  only when Y is not exhausted, and it writes the output buffers at \<open>k\<close>.
\<close>

definition permitted :: "int \<Rightarrow> int \<Rightarrow> int \<Rightarrow> 'v mstate \<Rightarrow> access \<Rightarrow> bool" where
  "permitted x_len y_len k s a =
     (case a of
        Rd b n \<Rightarrow>
          (b = X \<or> b = X_inds \<longrightarrow> n = ci s \<and> \<not> (cj s < y_len \<and> ci s = x_len)) \<and>
          (b = Y \<or> b = Y_inds \<longrightarrow> n = cj s \<and> cj s < y_len) \<and>
          b \<noteq> Out \<and> b \<noteq> Out_inds
      | Wr b n \<Rightarrow> (b = Out \<or> b = Out_inds) \<and> n = k)"

text \<open>
  How a state \<open>s'\<close> reached within iteration \<open>k\<close> relates to the state \<open>s\<close> in which
  the iteration began.
\<close>

definition during :: "int \<Rightarrow> int \<Rightarrow> nat \<Rightarrow> nat \<Rightarrow> int \<Rightarrow> 'v mstate \<Rightarrow> 'v mstate \<Rightarrow> bool" where
  "during x_len y_len out out_inds k s s' =
     (ci s' = ci s \<and> cj s' = cj s \<and>
      (\<forall>r. r \<noteq> out \<and> r \<noteq> out_inds \<longrightarrow> heap s' r = heap s r) \<and>
      (\<forall>r. length (heap s' r) = length (heap s r)) \<and>
      (\<forall>r p. p \<noteq> nat k \<longrightarrow> heap s' r ! p = heap s r ! p) \<and>
      (\<exists>new. accesses s' = accesses s @ new \<and> (\<forall>a \<in> set new. permitted x_len y_len k s a)))"

text \<open>Every subscript that iteration \<open>k\<close> can evaluate from \<open>s\<close> is in range.\<close>

definition roomy ::
  "int \<Rightarrow> nat \<Rightarrow> nat \<Rightarrow> int \<Rightarrow> nat \<Rightarrow> nat \<Rightarrow> nat \<Rightarrow> nat \<Rightarrow> int \<Rightarrow> 'v mstate \<Rightarrow> bool" where
  "roomy x_len x x_inds y_len y y_inds out out_inds k s =
     ((cj s < y_len \<longrightarrow>
         0 \<le> cj s \<and> cj s < int (length (heap s y)) \<and> cj s < int (length (heap s y_inds))) \<and>
      (\<not> (cj s < y_len \<and> ci s = x_len) \<longrightarrow>
         0 \<le> ci s \<and> ci s < int (length (heap s x)) \<and> ci s < int (length (heap s x_inds))) \<and>
      k < int (length (heap s out)) \<and> k < int (length (heap s out_inds)))"

text \<open>The cursors are within their runs and at least \<open>n\<close> elements remain.\<close>

definition cursors_ok :: "int \<Rightarrow> int \<Rightarrow> int \<Rightarrow> 'v mstate \<Rightarrow> bool" where
  "cursors_ok x_len y_len n s =
     (0 \<le> ci s \<and> ci s \<le> x_len \<and> 0 \<le> cj s \<and> cj s \<le> y_len \<and>
      n \<le> (x_len - ci s) + (y_len - cj s))"

text \<open>
  Within an iteration begun in \<open>s\<close>: the cursors are where they were, and \<open>ws\<close> is
  what has been written to \<open>out\<close> since.
\<close>

definition logged :: "access list \<Rightarrow> 'v mstate \<Rightarrow> 'v mstate \<Rightarrow> bool" where
  "logged ws s s' =
     (ci s' = ci s \<and> cj s' = cj s \<and>
      out_writes (accesses s') = out_writes (accesses s) @ ws)"

subsection \<open>A call within the contract\<close>

text \<open>The value of the test, when the subscripts are in range.\<close>

definition takes_y :: "int \<Rightarrow> nat \<Rightarrow> int \<Rightarrow> nat \<Rightarrow> ('v::linorder) mstate \<Rightarrow> bool" where
  "takes_y x_len x y_len y s =
     (cj s < y_len \<and> (ci s = x_len \<or> heap s y ! nat (cj s) < heap s x ! nat (ci s)))"

text \<open>
  The state in which iteration \<open>k\<close> ends, when no subscript raises and the output
  buffers are separate objects.
\<close>

definition step_state ::
  "int \<Rightarrow> nat \<Rightarrow> nat \<Rightarrow> int \<Rightarrow> nat \<Rightarrow> nat \<Rightarrow> nat \<Rightarrow> nat \<Rightarrow> int \<Rightarrow>
   ('v::linorder) mstate \<Rightarrow> 'v mstate" where
  "step_state x_len x x_inds y_len y y_inds out out_inds k s =
     (if takes_y x_len x y_len y s then
        s\<lparr>heap := (heap s)
             (out := (heap s out)[nat k := heap s y ! nat (cj s)],
              out_inds := (heap s out_inds)[nat k := heap s y_inds ! nat (cj s)]),
          cj := cj s + 1,
          accesses := accesses s @
             (if ci s = x_len then [] else [Rd Y (cj s), Rd X (ci s)]) @
             [Rd Y (cj s), Wr Out k, Rd Y_inds (cj s), Wr Out_inds k]\<rparr>
      else
        s\<lparr>heap := (heap s)
             (out := (heap s out)[nat k := heap s x ! nat (ci s)],
              out_inds := (heap s out_inds)[nat k := heap s x_inds ! nat (ci s)]),
          ci := ci s + 1,
          accesses := accesses s @
             (if cj s < y_len then [Rd Y (cj s), Rd X (ci s)] else []) @
             [Rd X (ci s), Wr Out k, Rd X_inds (ci s), Wr Out_inds k]\<rparr>)"

text \<open>The state after \<open>m\<close> such iterations.\<close>

primrec run ::
  "int \<Rightarrow> nat \<Rightarrow> nat \<Rightarrow> int \<Rightarrow> nat \<Rightarrow> nat \<Rightarrow> nat \<Rightarrow> nat \<Rightarrow> ('v::linorder) mstate \<Rightarrow> nat \<Rightarrow>
   'v mstate" where
  "run x_len x x_inds y_len y y_inds out out_inds s0 0 = s0"
| "run x_len x x_inds y_len y y_inds out out_inds s0 (Suc m) =
     step_state x_len x x_inds y_len y y_inds out out_inds (int m)
       (run x_len x x_inds y_len y y_inds out out_inds s0 m)"

text \<open>What holds of the state after \<open>m\<close> iterations of a call within the contract.\<close>

definition run_inv ::
  "int \<Rightarrow> int \<Rightarrow> nat \<Rightarrow> nat \<Rightarrow> int \<Rightarrow> int \<Rightarrow> (nat \<Rightarrow> 'v list) \<Rightarrow> nat \<Rightarrow> 'v mstate \<Rightarrow> bool" where
  "run_inv x_len y_len out out_inds i j h m s =
     (i \<le> ci s \<and> ci s \<le> x_len \<and> j \<le> cj s \<and> cj s \<le> y_len \<and>
      (ci s - i) + (cj s - j) = int m \<and>
      (\<forall>r. r \<noteq> out \<and> r \<noteq> out_inds \<longrightarrow> heap s r = h r) \<and>
      length (heap s out) = length (h out) \<and>
      length (heap s out_inds) = length (h out_inds))"

section \<open>One iteration, whichever way it ends\<close>

lemma sat_bind:
  assumes "sat m Q' E" and "\<And>a. Q' a \<Longrightarrow> sat (f a) Q E"
  shows "sat (bind_exc m f) Q E"
proof (cases m)
  case (Inl e)
  then show ?thesis using assms(1) by (simp add: sat_def bind_exc_def)
next
  case (Inr a)
  then have "Q' a" using assms(1) by (simp add: sat_def)
  from assms(2) [OF this] show ?thesis using Inr by (simp add: bind_exc_def)
qed

lemma sat_Inr: "Q a \<Longrightarrow> sat (Inr a) Q E"
  by (simp add: sat_def)

lemma during_refl: "during x_len y_len out out_inds k s s"
  by (simp add: during_def)

lemma during_ci: "during x_len y_len out out_inds k s s1 \<Longrightarrow> ci s1 = ci s"
  by (simp add: during_def)

lemma during_cj: "during x_len y_len out out_inds k s s1 \<Longrightarrow> cj s1 = cj s"
  by (simp add: during_def)

lemma rd_during:
  assumes "during x_len y_len out out_inds k s s1" and "permitted x_len y_len k s1 (Rd b n)"
    and "F \<Longrightarrow> 0 \<le> n \<and> n < int (length (heap s r))"
  shows "sat (rd b r n s1) (\<lambda>(v, s2). during x_len y_len out out_inds k s s2)
           (\<lambda>s'. during x_len y_len out out_inds k s s' \<and> \<not> F)"
  using assms
  by (auto simp: sat_def rd_def Let_def during_def permitted_def getitem_def split: sum.splits)

lemma wr_during:
  assumes "during x_len y_len out out_inds k s s1" and "r = out \<or> r = out_inds" and "0 \<le> k"
    and "b = Out \<or> b = Out_inds"
    and "F \<Longrightarrow> k < int (length (heap s r))"
  shows "sat (wr b r k v s1) (during x_len y_len out out_inds k s)
           (\<lambda>s'. during x_len y_len out out_inds k s s' \<and> \<not> F)"
  using assms
  by (auto simp: sat_def wr_def Let_def during_def setitem_def permitted_def split: sum.splits if_splits)

lemma test_during:
  "sat (merge_test x_len x y_len y s)
     (\<lambda>(t, s'). during x_len y_len out out_inds k s s' \<and>
        (if t then cj s < y_len else \<not> (cj s < y_len \<and> ci s = x_len)))
     (\<lambda>s'. during x_len y_len out out_inds k s s' \<and>
        \<not> roomy x_len x x_inds y_len y y_inds out out_inds k s)"
proof (cases "cj s < y_len \<and> ci s \<noteq> x_len")
  case False
  then show ?thesis
    by (auto simp: merge_test_def sat_def during_refl)
next
  case True
  then have eq: "merge_test x_len x y_len y s =
      bind_exc (rd Y y (cj s) s) (\<lambda>(yv, s1).
      bind_exc (rd X x (ci s1) s1) (\<lambda>(xv, s2). Inr (yv < xv, s2)))"
    by (simp add: merge_test_def)
  show ?thesis
    unfolding eq
    apply (rule sat_bind [OF rd_during])
       apply (rule during_refl)
      apply (simp add: permitted_def True)
     apply (simp add: roomy_def True)
    apply clarify
    apply (rule sat_bind [OF rd_during])
       apply assumption
      apply (simp add: permitted_def True during_ci during_cj)
     apply (simp add: roomy_def True during_ci)
    apply clarify
    apply (rule sat_Inr)
    apply (simp add: True)
    done
qed

lemma body_during:
  assumes "0 \<le> k"
  shows "sat (merge_body x_len x x_inds y_len y y_inds out out_inds k s)
     (\<lambda>s'. \<exists>s4. during x_len y_len out out_inds k s s4 \<and>
        (s' = s4\<lparr>cj := cj s + 1\<rparr> \<and> cj s < y_len \<or>
         s' = s4\<lparr>ci := ci s + 1\<rparr> \<and> \<not> (cj s < y_len \<and> ci s = x_len)))
     (\<lambda>s'. during x_len y_len out out_inds k s s' \<and>
        \<not> roomy x_len x x_inds y_len y y_inds out out_inds k s)"
  unfolding merge_body_def
  apply (rule sat_bind [OF test_during [where out = out and out_inds = out_inds and k = k]])
  apply clarify
  subgoal for t s0
    apply (cases t)
     apply simp_all
     apply (rule sat_bind [OF rd_during], assumption)
       apply (simp add: permitted_def during_ci during_cj)
      apply (simp add: roomy_def during_cj)
     apply clarify
     apply (rule sat_bind [OF wr_during], assumption, simp, rule assms, simp)
      apply (simp add: roomy_def)
     apply (rule sat_bind [OF rd_during], assumption)
       apply (simp add: permitted_def during_ci during_cj)
      apply (simp add: roomy_def during_cj)
     apply clarify
     apply (rule sat_bind [OF wr_during], assumption, simp, rule assms, simp)
      apply (simp add: roomy_def)
     apply (rule sat_Inr)
     apply (auto simp: during_cj)[1]
    apply (rule sat_bind [OF rd_during], assumption)
      apply (simp add: permitted_def during_ci during_cj)
     apply (simp add: roomy_def during_ci)
    apply clarify
    apply (rule sat_bind [OF wr_during], assumption, simp, rule assms, simp)
     apply (simp add: roomy_def)
    apply (rule sat_bind [OF rd_during], assumption)
      apply (simp add: permitted_def during_ci during_cj)
     apply (simp add: roomy_def during_ci)
    apply clarify
    apply (rule sat_bind [OF wr_during], assumption, simp, rule assms, simp)
     apply (simp add: roomy_def)
    apply (rule sat_Inr)
    apply (auto simp: during_ci)[1]
    done
  done

lemma body_Inl:
  assumes "0 \<le> k" and "merge_body x_len x x_inds y_len y y_inds out out_inds k s = Inl (e, s1)"
  shows "during x_len y_len out out_inds k s s1"
    and "\<not> roomy x_len x x_inds y_len y y_inds out out_inds k s"
  using body_during [OF assms(1), of x_len x x_inds y_len y y_inds out out_inds s] assms(2)
  by (simp_all add: sat_def)

lemma body_Inr:
  assumes "0 \<le> k" and "merge_body x_len x x_inds y_len y y_inds out out_inds k s = Inr s1"
  shows "\<exists>s4. during x_len y_len out out_inds k s s4 \<and>
        (s1 = s4\<lparr>cj := cj s + 1\<rparr> \<and> cj s < y_len \<or>
         s1 = s4\<lparr>ci := ci s + 1\<rparr> \<and> \<not> (cj s < y_len \<and> ci s = x_len))"
  using body_during [OF assms(1), of x_len x x_inds y_len y y_inds out out_inds s] assms(2)
  by (simp add: sat_def)

lemma body_returns:
  assumes "0 \<le> k" and "roomy x_len x x_inds y_len y y_inds out out_inds k s"
  shows "\<exists>s1. merge_body x_len x x_inds y_len y y_inds out out_inds k s = Inr s1"
proof (cases "merge_body x_len x x_inds y_len y y_inds out out_inds k s")
  case (Inl a)
  obtain e s1 where "a = (e, s1)" by (cases a)
  with Inl body_Inl(2) [OF assms(1), of x_len x x_inds y_len y y_inds out out_inds s e s1] assms(2)
  show ?thesis by simp
next
  case (Inr s1)
  then show ?thesis by simp
qed

text \<open>What one iteration leaves of the store.\<close>

lemma body_frame:
  assumes "0 \<le> k"
    and "merge_body x_len x x_inds y_len y y_inds out out_inds k s = Inr s1 \<or>
         merge_body x_len x x_inds y_len y y_inds out out_inds k s = Inl (e, s1)"
  shows "r \<noteq> out \<and> r \<noteq> out_inds \<longrightarrow> heap s1 r = heap s r"
    and "length (heap s1 r) = length (heap s r)"
    and "int p \<noteq> k \<longrightarrow> heap s1 r ! p = heap s r ! p"
proof -
  have d: "\<exists>s4. during x_len y_len out out_inds k s s4 \<and> heap s1 = heap s4"
    using assms(2) body_Inl(1) [OF assms(1), of x_len x x_inds y_len y y_inds out out_inds s e s1]
      body_Inr [OF assms(1), of x_len x x_inds y_len y y_inds out out_inds s s1]
    by fastforce
  have p: "int p \<noteq> k \<Longrightarrow> p \<noteq> nat k" using assms(1) by auto
  show "r \<noteq> out \<and> r \<noteq> out_inds \<longrightarrow> heap s1 r = heap s r"
    using d by (auto simp: during_def)
  show "length (heap s1 r) = length (heap s r)"
    using d by (auto simp: during_def)
  show "int p \<noteq> k \<longrightarrow> heap s1 r ! p = heap s r ! p"
    using d p by (auto simp: during_def)
qed

section \<open>The loop, whichever way it ends\<close>

lemma loop_frame:
  assumes "\<forall>k \<in> set ks. 0 \<le> k"
  shows "(\<forall>r. r \<noteq> out \<and> r \<noteq> out_inds \<longrightarrow>
            heap (final (merge_loop x_len x x_inds y_len y y_inds out out_inds ks s)) r = heap s r) \<and>
         (\<forall>r. length (heap (final (merge_loop x_len x x_inds y_len y y_inds out out_inds ks s)) r)
            = length (heap s r)) \<and>
         (\<forall>r p. int p \<notin> set ks \<longrightarrow>
            heap (final (merge_loop x_len x x_inds y_len y y_inds out out_inds ks s)) r ! p
            = heap s r ! p)"
  using assms
proof (induction ks arbitrary: s)
  case Nil
  show ?case by (simp add: final_def)
next
  case (Cons k ks)
  have k: "0 \<le> k" using Cons.prems by simp
  show ?case
  proof (cases "merge_body x_len x x_inds y_len y y_inds out out_inds k s")
    case (Inl a)
    obtain e s1 where a: "a = (e, s1)" by (cases a)
    have fin: "final (merge_loop x_len x x_inds y_len y y_inds out out_inds (k # ks) s) = s1"
      using Inl a by (simp add: bind_exc_def final_def)
    have b: "merge_body x_len x x_inds y_len y y_inds out out_inds k s = Inr s1 \<or>
         merge_body x_len x x_inds y_len y y_inds out out_inds k s = Inl (e, s1)"
      using Inl a by simp
    show ?thesis
      unfolding fin using body_frame [OF k b] by auto
  next
    case (Inr s1)
    have fin: "final (merge_loop x_len x x_inds y_len y y_inds out out_inds (k # ks) s) =
        final (merge_loop x_len x x_inds y_len y y_inds out out_inds ks s1)"
      using Inr by (simp add: bind_exc_def)
    have b: "merge_body x_len x x_inds y_len y y_inds out out_inds k s = Inr s1 \<or>
         merge_body x_len x x_inds y_len y y_inds out out_inds k s = Inl (undefined, s1)"
      using Inr by simp
    have ih: "(\<forall>r. r \<noteq> out \<and> r \<noteq> out_inds \<longrightarrow>
            heap (final (merge_loop x_len x x_inds y_len y y_inds out out_inds ks s1)) r = heap s1 r) \<and>
         (\<forall>r. length (heap (final (merge_loop x_len x x_inds y_len y y_inds out out_inds ks s1)) r)
            = length (heap s1 r)) \<and>
         (\<forall>r p. int p \<notin> set ks \<longrightarrow>
            heap (final (merge_loop x_len x x_inds y_len y y_inds out out_inds ks s1)) r ! p
            = heap s1 r ! p)"
      using Cons.IH [of s1] Cons.prems by simp
    show ?thesis
      unfolding fin using body_frame [OF k b] ih by auto
  qed
qed

text \<open>
  Induction over the iterations of the loop, for a relation between the state in which
  the loop starts and the state in which it ends.
\<close>

lemma loop_final_induct:
  assumes "\<forall>k \<in> set ks. 0 \<le> k"
    and "\<And>s. P [] s s"
    and "\<And>k ks s s1. 0 \<le> k \<Longrightarrow> during x_len y_len out out_inds k s s1 \<Longrightarrow>
           \<not> roomy x_len x x_inds y_len y y_inds out out_inds k s \<Longrightarrow> P (k # ks) s s1"
    and "\<And>k ks s s4 s1 s'. 0 \<le> k \<Longrightarrow> during x_len y_len out out_inds k s s4 \<Longrightarrow>
           s1 = s4\<lparr>cj := cj s + 1\<rparr> \<and> cj s < y_len \<or>
           s1 = s4\<lparr>ci := ci s + 1\<rparr> \<and> \<not> (cj s < y_len \<and> ci s = x_len) \<Longrightarrow>
           P ks s1 s' \<Longrightarrow> P (k # ks) s s'"
  shows "P ks s (final (merge_loop x_len x x_inds y_len y y_inds out out_inds ks s))"
  using assms(1)
proof (induction ks arbitrary: s)
  case Nil
  show ?case by (simp add: final_def assms(2))
next
  case (Cons k ks)
  have k: "0 \<le> k" using Cons.prems by simp
  show ?case
  proof (cases "merge_body x_len x x_inds y_len y y_inds out out_inds k s")
    case (Inl a)
    obtain e s1 where a: "a = (e, s1)" by (cases a)
    have fin: "final (merge_loop x_len x x_inds y_len y y_inds out out_inds (k # ks) s) = s1"
      using Inl a by (simp add: bind_exc_def final_def)
    have b: "merge_body x_len x x_inds y_len y y_inds out out_inds k s = Inl (e, s1)"
      using Inl a by simp
    show ?thesis
      unfolding fin by (rule assms(3) [OF k body_Inl [OF k b]])
  next
    case (Inr s1)
    have fin: "final (merge_loop x_len x x_inds y_len y y_inds out out_inds (k # ks) s) =
        final (merge_loop x_len x x_inds y_len y y_inds out out_inds ks s1)"
      using Inr by (simp add: bind_exc_def)
    from body_Inr [OF k Inr] obtain s4 where
      d: "during x_len y_len out out_inds k s s4" and
      e: "s1 = s4\<lparr>cj := cj s + 1\<rparr> \<and> cj s < y_len \<or>
          s1 = s4\<lparr>ci := ci s + 1\<rparr> \<and> \<not> (cj s < y_len \<and> ci s = x_len)"
      by blast
    have ih: "P ks s1 (final (merge_loop x_len x x_inds y_len y y_inds out out_inds ks s1))"
      using Cons.IH [of s1] Cons.prems by simp
    show ?thesis
      unfolding fin by (rule assms(4) [OF k d e ih])
  qed
qed

lemma range_py_set: "k \<in> set (range_py n) \<longleftrightarrow> 0 \<le> k \<and> k < n"
  by (auto simp: range_py_def image_iff intro!: bexI [of _ "nat k"])

lemma range_py_length: "length (range_py n) = nat n"
  by (simp add: range_py_def)

lemma permitted_in_bounds:
  assumes "permitted x_len y_len k s a" and "cursors_ok x_len y_len 1 s"
    and "0 \<le> k" and "k < out_len"
  shows "in_bounds x_len y_len out_len a"
  using assms by (cases a) (auto simp: permitted_def in_bounds_def cursors_ok_def)

lemma cursors_ok_step:
  assumes "cursors_ok x_len y_len (n + 1) s" and "0 \<le> n"
    and "during x_len y_len out out_inds k s s4"
    and "s1 = s4\<lparr>cj := cj s + 1\<rparr> \<and> cj s < y_len \<or>
         s1 = s4\<lparr>ci := ci s + 1\<rparr> \<and> \<not> (cj s < y_len \<and> ci s = x_len)"
  shows "cursors_ok x_len y_len n s1"
  using assms by (auto simp: cursors_ok_def during_def)

lemma cursors_ok_mono: "cursors_ok x_len y_len n s \<Longrightarrow> m \<le> n \<Longrightarrow> cursors_ok x_len y_len m s"
  by (simp add: cursors_ok_def)

lemma during_in_bounds:
  assumes "during x_len y_len out out_inds k s s1" and "cursors_ok x_len y_len 1 s"
    and "0 \<le> k" and "k < out_len"
    and "\<forall>a \<in> set (accesses s). in_bounds x_len y_len out_len a"
  shows "\<forall>a \<in> set (accesses s1). in_bounds x_len y_len out_len a"
proof -
  from assms(1) obtain new where
    n: "accesses s1 = accesses s @ new" "\<forall>a \<in> set new. permitted x_len y_len k s a"
    by (auto simp: during_def)
  have "\<forall>a \<in> set new. in_bounds x_len y_len out_len a"
    using n(2) permitted_in_bounds [OF _ assms(2) assms(3) assms(4)] by blast
  then show ?thesis using n(1) assms(5) by auto
qed

lemma loop_in_bounds:
  assumes "\<forall>k \<in> set ks. 0 \<le> k"
  shows "(\<forall>k \<in> set ks. k < out_len) \<longrightarrow>
         cursors_ok x_len y_len (int (length ks)) s \<longrightarrow>
         (\<forall>a \<in> set (accesses s). in_bounds x_len y_len out_len a) \<longrightarrow>
         (\<forall>a \<in> set (accesses (final (merge_loop x_len x x_inds y_len y y_inds out out_inds ks s))).
            in_bounds x_len y_len out_len a)"
proof (rule loop_final_induct [OF assms, where P = "\<lambda>ks s s'. (\<forall>k \<in> set ks. k < out_len) \<longrightarrow>
         cursors_ok x_len y_len (int (length ks)) s \<longrightarrow>
         (\<forall>a \<in> set (accesses s). in_bounds x_len y_len out_len a) \<longrightarrow>
         (\<forall>a \<in> set (accesses s'). in_bounds x_len y_len out_len a)"])
  fix s :: "'a mstate"
  show "(\<forall>k \<in> set []. k < out_len) \<longrightarrow>
         cursors_ok x_len y_len (int (length ([] :: int list))) s \<longrightarrow>
         (\<forall>a \<in> set (accesses s). in_bounds x_len y_len out_len a) \<longrightarrow>
         (\<forall>a \<in> set (accesses s). in_bounds x_len y_len out_len a)"
    by simp
next
  fix k ks and s s1 :: "'a mstate"
  assume k: "0 \<le> k" and d: "during x_len y_len out out_inds k s s1"
  show "(\<forall>k \<in> set (k # ks). k < out_len) \<longrightarrow>
         cursors_ok x_len y_len (int (length (k # ks))) s \<longrightarrow>
         (\<forall>a \<in> set (accesses s). in_bounds x_len y_len out_len a) \<longrightarrow>
         (\<forall>a \<in> set (accesses s1). in_bounds x_len y_len out_len a)"
  proof (intro impI)
    assume a: "\<forall>k \<in> set (k # ks). k < out_len"
      and c: "cursors_ok x_len y_len (int (length (k # ks))) s"
      and b: "\<forall>a \<in> set (accesses s). in_bounds x_len y_len out_len a"
    have c1: "cursors_ok x_len y_len 1 s" by (rule cursors_ok_mono [OF c]) simp
    show "\<forall>a \<in> set (accesses s1). in_bounds x_len y_len out_len a"
      using during_in_bounds [OF d c1 k _ b] a by simp
  qed
next
  fix k ks and s s4 s1 s' :: "'a mstate"
  assume k: "0 \<le> k" and d: "during x_len y_len out out_inds k s s4"
    and e: "s1 = s4\<lparr>cj := cj s + 1\<rparr> \<and> cj s < y_len \<or>
           s1 = s4\<lparr>ci := ci s + 1\<rparr> \<and> \<not> (cj s < y_len \<and> ci s = x_len)"
    and ih: "(\<forall>k \<in> set ks. k < out_len) \<longrightarrow>
         cursors_ok x_len y_len (int (length ks)) s1 \<longrightarrow>
         (\<forall>a \<in> set (accesses s1). in_bounds x_len y_len out_len a) \<longrightarrow>
         (\<forall>a \<in> set (accesses s'). in_bounds x_len y_len out_len a)"
  show "(\<forall>k \<in> set (k # ks). k < out_len) \<longrightarrow>
         cursors_ok x_len y_len (int (length (k # ks))) s \<longrightarrow>
         (\<forall>a \<in> set (accesses s). in_bounds x_len y_len out_len a) \<longrightarrow>
         (\<forall>a \<in> set (accesses s'). in_bounds x_len y_len out_len a)"
  proof (intro impI)
    assume a: "\<forall>k \<in> set (k # ks). k < out_len"
      and c: "cursors_ok x_len y_len (int (length (k # ks))) s"
      and b: "\<forall>a \<in> set (accesses s). in_bounds x_len y_len out_len a"
    have c1: "cursors_ok x_len y_len 1 s" by (rule cursors_ok_mono [OF c]) simp
    have c': "cursors_ok x_len y_len (int (length ks) + 1) s" using c by (simp add: add.commute)
    have b4: "\<forall>a \<in> set (accesses s4). in_bounds x_len y_len out_len a"
      using during_in_bounds [OF d c1 k _ b] a by simp
    have acc: "accesses s1 = accesses s4" using e by auto
    have cs: "cursors_ok x_len y_len (int (length ks)) s1"
      by (rule cursors_ok_step [OF c' _ d e]) simp
    show "\<forall>a \<in> set (accesses s'). in_bounds x_len y_len out_len a"
      using ih a cs b4 acc by simp
  qed
qed

lemma loop_returns:
  assumes "\<forall>k \<in> set ks. 0 \<le> k \<and> k < int (length (heap s out)) \<and> k < int (length (heap s out_inds))"
    and "cursors_ok x_len y_len (int (length ks)) s"
    and "x_len \<le> int (length (heap s x))" and "x_len \<le> int (length (heap s x_inds))"
    and "y_len \<le> int (length (heap s y))" and "y_len \<le> int (length (heap s y_inds))"
  shows "\<exists>s'. merge_loop x_len x x_inds y_len y y_inds out out_inds ks s = Inr s'"
  using assms
proof (induction ks arbitrary: s)
  case Nil
  show ?case by simp
next
  case (Cons k ks)
  have k: "0 \<le> k" using Cons.prems(1) by simp
  have c1: "cursors_ok x_len y_len 1 s" by (rule cursors_ok_mono [OF Cons.prems(2)]) simp
  have r: "roomy x_len x x_inds y_len y y_inds out out_inds k s"
    using Cons.prems c1 by (auto simp: roomy_def cursors_ok_def)
  from body_returns [OF k r] obtain s1 where
    b: "merge_body x_len x x_inds y_len y y_inds out out_inds k s = Inr s1" by blast
  from body_Inr [OF k b] obtain s4 where
    d: "during x_len y_len out out_inds k s s4" and
    e: "s1 = s4\<lparr>cj := cj s + 1\<rparr> \<and> cj s < y_len \<or>
        s1 = s4\<lparr>ci := ci s + 1\<rparr> \<and> \<not> (cj s < y_len \<and> ci s = x_len)"
    by blast
  have len: "\<And>r. length (heap s1 r) = length (heap s r)"
    using d e by (auto simp: during_def)
  have c': "cursors_ok x_len y_len (int (length ks) + 1) s"
    using Cons.prems(2) by (simp add: add.commute)
  have cs: "cursors_ok x_len y_len (int (length ks)) s1"
    by (rule cursors_ok_step [OF c' _ d e]) simp
  have "\<exists>s'. merge_loop x_len x x_inds y_len y y_inds out out_inds ks s1 = Inr s'"
    by (rule Cons.IH [OF _ cs]) (use Cons.prems len in simp_all)
  then show ?case using b by (simp add: bind_exc_def)
qed

lemma range_py_nonneg: "\<forall>k \<in> set (range_py n). 0 \<le> k"
  by (simp add: range_py_set)

lemma range_py_nonpos: "n \<le> 0 \<Longrightarrow> range_py n = []"
  by (simp add: range_py_def)

lemma permitted_write_within:
  "permitted x_len y_len k s a \<Longrightarrow> 0 \<le> k \<Longrightarrow> k < out_len \<Longrightarrow> write_within out_len a"
  by (cases a) (simp_all add: permitted_def write_within_def)

lemma during_writes:
  assumes "during x_len y_len out out_inds k s s1" and "0 \<le> k" and "k < out_len"
    and "\<forall>a \<in> set (accesses s). write_within out_len a"
  shows "\<forall>a \<in> set (accesses s1). write_within out_len a"
proof -
  from assms(1) obtain new where
    n: "accesses s1 = accesses s @ new" "\<forall>a \<in> set new. permitted x_len y_len k s a"
    by (auto simp: during_def)
  have "\<forall>a \<in> set new. write_within out_len a"
    using n(2) permitted_write_within [OF _ assms(2) assms(3)] by blast
  then show ?thesis using n(1) assms(4) by auto
qed

lemma loop_writes:
  assumes "\<forall>k \<in> set ks. 0 \<le> k"
  shows "(\<forall>k \<in> set ks. k < out_len) \<longrightarrow>
         (\<forall>a \<in> set (accesses s). write_within out_len a) \<longrightarrow>
         (\<forall>a \<in> set (accesses (final (merge_loop x_len x x_inds y_len y y_inds out out_inds ks s))).
            write_within out_len a)"
proof (rule loop_final_induct [OF assms, where P = "\<lambda>ks s s'.
         (\<forall>k \<in> set ks. k < out_len) \<longrightarrow>
         (\<forall>a \<in> set (accesses s). write_within out_len a) \<longrightarrow>
         (\<forall>a \<in> set (accesses s'). write_within out_len a)"])
  fix s :: "'a mstate"
  show "(\<forall>k \<in> set []. k < out_len) \<longrightarrow>
         (\<forall>a \<in> set (accesses s). write_within out_len a) \<longrightarrow>
         (\<forall>a \<in> set (accesses s). write_within out_len a)"
    by simp
next
  fix k ks and s s1 :: "'a mstate"
  assume k: "0 \<le> k" and d: "during x_len y_len out out_inds k s s1"
  show "(\<forall>k \<in> set (k # ks). k < out_len) \<longrightarrow>
         (\<forall>a \<in> set (accesses s). write_within out_len a) \<longrightarrow>
         (\<forall>a \<in> set (accesses s1). write_within out_len a)"
    using during_writes [OF d k] by simp
next
  fix k ks and s s4 s1 s' :: "'a mstate"
  assume k: "0 \<le> k" and d: "during x_len y_len out out_inds k s s4"
    and e: "s1 = s4\<lparr>cj := cj s + 1\<rparr> \<and> cj s < y_len \<or>
           s1 = s4\<lparr>ci := ci s + 1\<rparr> \<and> \<not> (cj s < y_len \<and> ci s = x_len)"
    and ih: "(\<forall>k \<in> set ks. k < out_len) \<longrightarrow>
         (\<forall>a \<in> set (accesses s1). write_within out_len a) \<longrightarrow>
         (\<forall>a \<in> set (accesses s'). write_within out_len a)"
  have acc: "accesses s1 = accesses s4" using e by auto
  show "(\<forall>k \<in> set (k # ks). k < out_len) \<longrightarrow>
         (\<forall>a \<in> set (accesses s). write_within out_len a) \<longrightarrow>
         (\<forall>a \<in> set (accesses s'). write_within out_len a)"
    using during_writes [OF d k] ih acc by simp
qed

lemma drop_eqI:
  assumes "length xs = length ys" and "\<forall>p. n \<le> p \<longrightarrow> xs ! p = ys ! p"
  shows "drop n xs = drop n ys"
  using assms by (intro nth_equalityI) auto

section \<open>One iteration within the contract\<close>

lemma rd_ok:
  "0 \<le> n \<Longrightarrow> n < int (length (heap s r)) \<Longrightarrow>
   rd b r n s = Inr (heap s r ! nat n, s\<lparr>accesses := accesses s @ [Rd b n]\<rparr>)"
  by (simp add: rd_def getitem_def)

lemma wr_ok:
  "0 \<le> n \<Longrightarrow> n < int (length (heap s r)) \<Longrightarrow>
   wr b r n v s =
   Inr (s\<lparr>accesses := accesses s @ [Wr b n], heap := (heap s)(r := (heap s r)[nat n := v])\<rparr>)"
  by (simp add: wr_def setitem_def)

lemma test_x_exhausted:
  "cj s < y_len \<Longrightarrow> ci s = x_len \<Longrightarrow> merge_test x_len x y_len y s = Inr (True, s)"
  by (simp add: merge_test_def)

lemma test_y_exhausted:
  "\<not> cj s < y_len \<Longrightarrow> merge_test x_len x y_len y s = Inr (False, s)"
  by (simp add: merge_test_def)

lemma test_compare:
  assumes "cj s < y_len" and "ci s \<noteq> x_len"
    and "0 \<le> cj s" and "cj s < int (length (heap s y))"
    and "0 \<le> ci s" and "ci s < int (length (heap s x))"
  shows "merge_test x_len x y_len y s =
         Inr (heap s y ! nat (cj s) < heap s x ! nat (ci s),
              s\<lparr>accesses := accesses s @ [Rd Y (cj s), Rd X (ci s)]\<rparr>)"
  using assms by (simp add: merge_test_def rd_ok bind_exc_def)

lemma emit_y:
  assumes "n = cj s"
    and "0 \<le> cj s" and "cj s < int (length (heap s y))" and "cj s < int (length (heap s y_inds))"
    and "0 \<le> k" and "k < int (length (heap s out))" and "k < int (length (heap s out_inds))"
    and "out \<noteq> out_inds" and "out \<noteq> y_inds"
  shows "bind_exc (rd Y y n s) (\<lambda>(v, s1).
         bind_exc (wr Out out k v s1) (\<lambda>s2.
         bind_exc (rd Y_inds y_inds (cj s2) s2) (\<lambda>(w, s3).
         bind_exc (wr Out_inds out_inds k w s3) (\<lambda>s4.
         Inr (s4\<lparr>cj := cj s4 + 1\<rparr>))))) =
         Inr (s\<lparr>heap := (heap s)
             (out := (heap s out)[nat k := heap s y ! nat (cj s)],
              out_inds := (heap s out_inds)[nat k := heap s y_inds ! nat (cj s)]),
          cj := cj s + 1,
          accesses := accesses s @ [Rd Y (cj s), Wr Out k, Rd Y_inds (cj s), Wr Out_inds k]\<rparr>)"
  using assms by (simp add: rd_ok wr_ok bind_exc_def)

lemma emit_x:
  assumes "n = ci s"
    and "0 \<le> ci s" and "ci s < int (length (heap s x))" and "ci s < int (length (heap s x_inds))"
    and "0 \<le> k" and "k < int (length (heap s out))" and "k < int (length (heap s out_inds))"
    and "out \<noteq> out_inds" and "out \<noteq> x_inds"
  shows "bind_exc (rd X x n s) (\<lambda>(v, s1).
         bind_exc (wr Out out k v s1) (\<lambda>s2.
         bind_exc (rd X_inds x_inds (ci s2) s2) (\<lambda>(w, s3).
         bind_exc (wr Out_inds out_inds k w s3) (\<lambda>s4.
         Inr (s4\<lparr>ci := ci s4 + 1\<rparr>))))) =
         Inr (s\<lparr>heap := (heap s)
             (out := (heap s out)[nat k := heap s x ! nat (ci s)],
              out_inds := (heap s out_inds)[nat k := heap s x_inds ! nat (ci s)]),
          ci := ci s + 1,
          accesses := accesses s @ [Rd X (ci s), Wr Out k, Rd X_inds (ci s), Wr Out_inds k]\<rparr>)"
  using assms by (simp add: rd_ok wr_ok bind_exc_def)

lemma bind_exc_Inr: "bind_exc (Inr a) f = f a"
  by (simp add: bind_exc_def)

lemma body_step:
  assumes r: "roomy x_len x x_inds y_len y y_inds out out_inds k s" and k: "0 \<le> k"
    and sep: "separate x x_inds y y_inds out out_inds"
  shows "merge_body x_len x x_inds y_len y y_inds out out_inds k s =
         Inr (step_state x_len x x_inds y_len y y_inds out out_inds k s)"
proof -
  have ko: "k < int (length (heap s out))" "k < int (length (heap s out_inds))"
    using r by (simp_all add: roomy_def)
  have d: "out \<noteq> out_inds" "out \<noteq> y_inds" "out \<noteq> x_inds"
    using sep by (auto simp: separate_def)
  consider (xe) "cj s < y_len" "ci s = x_len"
    | (cmp) "cj s < y_len" "ci s \<noteq> x_len"
    | (ye) "\<not> cj s < y_len"
    by blast
  then show ?thesis
  proof cases
    case xe
    have y: "0 \<le> cj s" "cj s < int (length (heap s y))" "cj s < int (length (heap s y_inds))"
      using r xe by (simp_all add: roomy_def)
    show ?thesis
      unfolding merge_body_def test_x_exhausted [OF xe] bind_exc_Inr
      using xe y k ko d by (simp add: emit_y step_state_def takes_y_def)
  next
    case ye
    have x: "0 \<le> ci s" "ci s < int (length (heap s x))" "ci s < int (length (heap s x_inds))"
      using r ye by (simp_all add: roomy_def)
    show ?thesis
      unfolding merge_body_def test_y_exhausted [OF ye] bind_exc_Inr
      using ye x k ko d by (simp add: emit_x step_state_def takes_y_def)
  next
    case cmp
    have y: "0 \<le> cj s" "cj s < int (length (heap s y))" "cj s < int (length (heap s y_inds))"
      using r cmp by (simp_all add: roomy_def)
    have x: "0 \<le> ci s" "ci s < int (length (heap s x))" "ci s < int (length (heap s x_inds))"
      using r cmp by (simp_all add: roomy_def)
    show ?thesis
    proof (cases "heap s y ! nat (cj s) < heap s x ! nat (ci s)")
      case True
      show ?thesis
        unfolding merge_body_def test_compare [OF cmp y(1) y(2) x(1) x(2)] bind_exc_Inr
        using cmp True y k ko d
        by (simp add: emit_y step_state_def takes_y_def)
    next
      case False
      show ?thesis
        unfolding merge_body_def test_compare [OF cmp y(1) y(2) x(1) x(2)] bind_exc_Inr
        using cmp False x k ko d
        by (simp add: emit_x step_state_def takes_y_def)
    qed
  qed
qed

section \<open>A call within the contract\<close>

text \<open>The call with one more iteration is the shorter call followed by the body.\<close>

lemma loop_append:
  "merge_loop x_len x x_inds y_len y y_inds out out_inds (ks @ ks') s =
   bind_exc (merge_loop x_len x x_inds y_len y y_inds out out_inds ks s)
     (merge_loop x_len x x_inds y_len y y_inds out out_inds ks')"
proof (induction ks arbitrary: s)
  case Nil
  show ?case by (simp add: bind_exc_def)
next
  case (Cons k ks)
  show ?case
    by (cases "merge_body x_len x x_inds y_len y y_inds out out_inds k s")
      (simp_all add: bind_exc_def Cons.IH)
qed

lemma range_py_Suc: "range_py (int (Suc m)) = range_py (int m) @ [int m]"
  unfolding range_py_def nat_int by simp

lemma merge_Suc:
  assumes "merge x_len x x_inds y_len y y_inds (int m) out out_inds i j h = Inr s"
  shows "merge x_len x x_inds y_len y y_inds (int (Suc m)) out out_inds i j h =
         merge_body x_len x x_inds y_len y y_inds out out_inds (int m) s"
proof -
  have "merge x_len x x_inds y_len y y_inds (int (Suc m)) out out_inds i j h =
        bind_exc (merge x_len x x_inds y_len y y_inds (int m) out out_inds i j h)
          (merge_loop x_len x x_inds y_len y y_inds out out_inds [int m])"
    unfolding merge_def range_py_Suc loop_append ..
  also have "\<dots> = merge_loop x_len x x_inds y_len y y_inds out out_inds [int m] s"
    by (simp add: assms bind_exc_def)
  also have "\<dots> = merge_body x_len x x_inds y_len y y_inds out out_inds (int m) s"
    by (cases "merge_body x_len x x_inds y_len y y_inds out out_inds (int m) s")
      (simp_all add: bind_exc_def)
  finally show ?thesis .
qed

lemma merge_pre_less:
  "merge_pre x_len x x_inds y_len y y_inds out_len out out_inds i j h \<Longrightarrow> n \<le> out_len \<Longrightarrow>
   merge_pre x_len x x_inds y_len y y_inds n out out_inds i j h"
  by (simp add: merge_pre_def)

lemma run_inv_unexhausted:
  assumes "merge_pre x_len x x_inds y_len y y_inds out_len out out_inds i j h"
    and "int m < out_len" and "run_inv x_len y_len out out_inds i j h m s"
  shows "cj s < y_len \<or> ci s < x_len"
  using assms by (auto simp: merge_pre_def run_inv_def)

lemma run_inv_roomy:
  assumes "merge_pre x_len x x_inds y_len y y_inds out_len out out_inds i j h"
    and "int m < out_len" and "run_inv x_len y_len out out_inds i j h m s"
  shows "roomy x_len x x_inds y_len y y_inds out out_inds (int m) s"
proof -
  note u = run_inv_unexhausted [OF assms]
  have hx: "heap s x = h x" "heap s x_inds = h x_inds" "heap s y = h y" "heap s y_inds = h y_inds"
    using assms(1,3) by (auto simp: merge_pre_def run_inv_def separate_def)
  have c: "0 \<le> ci s" "ci s \<le> x_len" "0 \<le> cj s" "cj s \<le> y_len"
    using assms(1,3) by (auto simp: merge_pre_def run_inv_def)
  have l: "x_len \<le> int (length (h x))" "x_len \<le> int (length (h x_inds))"
    "y_len \<le> int (length (h y))" "y_len \<le> int (length (h y_inds))"
    "int m < int (length (heap s out))" "int m < int (length (heap s out_inds))"
    using assms by (auto simp: merge_pre_def run_inv_def)
  show ?thesis
    unfolding roomy_def hx using u c l by auto
qed

lemma takes_y_unexhausted:
  "takes_y x_len x y_len y s \<Longrightarrow> cj s < y_len"
  by (simp add: takes_y_def)

lemma step_state_ci:
  "ci (step_state x_len x x_inds y_len y y_inds out out_inds k s) =
   (if takes_y x_len x y_len y s then ci s else ci s + 1)"
  by (simp add: step_state_def)

lemma step_state_cj:
  "cj (step_state x_len x x_inds y_len y y_inds out out_inds k s) =
   (if takes_y x_len x y_len y s then cj s + 1 else cj s)"
  by (simp add: step_state_def)

lemma step_state_heap_other:
  "r \<noteq> out \<Longrightarrow> r \<noteq> out_inds \<Longrightarrow>
   heap (step_state x_len x x_inds y_len y y_inds out out_inds k s) r = heap s r"
  by (simp add: step_state_def)

lemma step_state_heap_out:
  "out \<noteq> out_inds \<Longrightarrow>
   heap (step_state x_len x x_inds y_len y y_inds out out_inds k s) out =
   (heap s out)[nat k := (if takes_y x_len x y_len y s then heap s y ! nat (cj s)
                          else heap s x ! nat (ci s))]"
  by (simp add: step_state_def)

lemma step_state_heap_out_inds:
  "heap (step_state x_len x x_inds y_len y y_inds out out_inds k s) out_inds =
   (heap s out_inds)[nat k := (if takes_y x_len x y_len y s then heap s y_inds ! nat (cj s)
                               else heap s x_inds ! nat (ci s))]"
  by (simp add: step_state_def)

lemma run_inv_step:
  assumes "merge_pre x_len x x_inds y_len y y_inds out_len out out_inds i j h"
    and "int m < out_len" and "run_inv x_len y_len out out_inds i j h m s"
  shows "run_inv x_len y_len out out_inds i j h (Suc m)
           (step_state x_len x x_inds y_len y y_inds out out_inds (int m) s)"
proof -
  note u = run_inv_unexhausted [OF assms]
  have sep: "out \<noteq> out_inds" using assms(1) by (simp add: merge_pre_def separate_def)
  have x: "\<not> takes_y x_len x y_len y s \<Longrightarrow> ci s < x_len"
    using u assms(3) by (auto simp: takes_y_def run_inv_def)
  show ?thesis
    using assms(3) x takes_y_unexhausted [of x_len x y_len y s] sep
    unfolding run_inv_def step_state_ci step_state_cj
    by (auto simp: step_state_heap_other step_state_heap_out step_state_heap_out_inds)
qed

text \<open>Within the contract the call returns, and the state it returns is \<open>run\<close>.\<close>

lemma run_refines:
  assumes "merge_pre x_len x x_inds y_len y y_inds out_len out out_inds i j h"
    and "int m \<le> out_len"
  shows "merge x_len x x_inds y_len y y_inds (int m) out out_inds i j h =
           Inr (run x_len x x_inds y_len y y_inds out out_inds
                  \<lparr>heap = h, ci = i, cj = j, accesses = []\<rparr> m) \<and>
         run_inv x_len y_len out out_inds i j h m
           (run x_len x x_inds y_len y y_inds out out_inds
                  \<lparr>heap = h, ci = i, cj = j, accesses = []\<rparr> m)"
  using assms(2)
proof (induction m)
  case 0
  show ?case using assms(1) by (simp add: merge_def range_py_def run_inv_def merge_pre_def)
next
  case (Suc m)
  let ?s = "run x_len x x_inds y_len y y_inds out out_inds
                  \<lparr>heap = h, ci = i, cj = j, accesses = []\<rparr> m"
  have lt: "int m < out_len" using Suc.prems by simp
  have ih: "merge x_len x x_inds y_len y y_inds (int m) out out_inds i j h = Inr ?s"
    "run_inv x_len y_len out out_inds i j h m ?s"
    using Suc.IH lt by simp_all
  have sep: "separate x x_inds y y_inds out out_inds"
    using assms(1) by (simp add: merge_pre_def)
  have "merge x_len x x_inds y_len y y_inds (int (Suc m)) out out_inds i j h =
        Inr (step_state x_len x x_inds y_len y y_inds out out_inds (int m) ?s)"
    unfolding merge_Suc [OF ih(1)]
    by (rule body_step [OF run_inv_roomy [OF assms(1) lt ih(2)] _ sep]) simp
  then show ?case
    using run_inv_step [OF assms(1) lt ih(2)] by simp
qed

lemma step_state_emitted:
  "emitted (accesses (step_state x_len x x_inds y_len y y_inds out out_inds k s)) =
   emitted (accesses s) @
     [if takes_y x_len x y_len y s then Rd Y_inds (cj s) else Rd X_inds (ci s)]"
  by (simp add: step_state_def emitted_def is_inds_read_def)

lemma run_emitted:
  fixes x_len y_len i j :: int and x x_inds y y_inds out out_inds :: nat
    and h :: "nat \<Rightarrow> ('v::linorder) list" and R
  defines "R \<equiv> run x_len x x_inds y_len y y_inds out out_inds
                  \<lparr>heap = h, ci = i, cj = j, accesses = []\<rparr>"
  shows "length (emitted (accesses (R m))) = m \<and>
         (\<forall>p < m. emitted (accesses (R m)) ! p =
            (if takes_y x_len x y_len y (R p) then Rd Y_inds (cj (R p)) else Rd X_inds (ci (R p))))"
  unfolding R_def
proof (induction m)
  case 0
  show ?case by (simp add: emitted_def)
next
  case (Suc m)
  show ?case
    using Suc.IH by (auto simp: step_state_emitted nth_append less_Suc_eq)
qed

lemma run_ci_mono:
  fixes x_len y_len :: int and x x_inds y y_inds out out_inds :: nat
    and s0 :: "('v::linorder) mstate" and R
  defines "R \<equiv> run x_len x x_inds y_len y y_inds out out_inds s0"
  shows "p \<le> q \<Longrightarrow> ci (R p) \<le> ci (R q)"
  unfolding R_def
proof (induction q)
  case 0
  then show ?case by simp
next
  case (Suc q)
  then show ?case
    by (cases "p = Suc q") (auto simp: step_state_ci)
qed

text \<open>The output cells below \<open>m\<close> after \<open>m\<close> iterations.\<close>

lemma run_outputs:
  fixes x_len y_len i j :: int and x x_inds y y_inds out out_inds :: nat
    and h :: "nat \<Rightarrow> ('v::linorder) list" and R
  defines "R \<equiv> run x_len x x_inds y_len y y_inds out out_inds
                  \<lparr>heap = h, ci = i, cj = j, accesses = []\<rparr>"
  assumes pre: "merge_pre x_len x x_inds y_len y y_inds out_len out out_inds i j h"
    and m: "int m \<le> out_len"
  shows "\<forall>p < m.
           heap (R m) out ! p =
             (if takes_y x_len x y_len y (R p) then h y ! nat (cj (R p)) else h x ! nat (ci (R p))) \<and>
           heap (R m) out_inds ! p =
             (if takes_y x_len x y_len y (R p) then h y_inds ! nat (cj (R p))
              else h x_inds ! nat (ci (R p)))"
  using m
proof (induction m)
  case 0
  show ?case by simp
next
  case (Suc m)
  have lt: "int m < out_len" and le: "int m \<le> out_len" using Suc.prems by simp_all
  have inv: "run_inv x_len y_len out out_inds i j h m (R m)"
    using run_refines [OF pre le] by (simp add: R_def)
  have sep: "out \<noteq> out_inds" "x \<noteq> out" "x \<noteq> out_inds" "y \<noteq> out" "y \<noteq> out_inds"
    "x_inds \<noteq> out" "x_inds \<noteq> out_inds" "y_inds \<noteq> out" "y_inds \<noteq> out_inds"
    using pre by (auto simp: merge_pre_def separate_def)
  have hh: "heap (R m) x = h x" "heap (R m) y = h y" "heap (R m) x_inds = h x_inds"
    "heap (R m) y_inds = h y_inds"
    using inv sep by (simp_all add: run_inv_def)
  have len: "m < length (heap (R m) out)" "m < length (heap (R m) out_inds)"
    using inv lt pre by (simp_all add: run_inv_def merge_pre_def)
  have o: "heap (R (Suc m)) out =
      (heap (R m) out)[m := (if takes_y x_len x y_len y (R m) then h y ! nat (cj (R m))
                          else h x ! nat (ci (R m)))]"
    unfolding R_def run.simps step_state_heap_out [OF sep(1)]
    using hh by (simp add: R_def)
  have oi: "heap (R (Suc m)) out_inds =
      (heap (R m) out_inds)[m := (if takes_y x_len x y_len y (R m) then h y_inds ! nat (cj (R m))
                          else h x_inds ! nat (ci (R m)))]"
    unfolding R_def run.simps step_state_heap_out_inds
    using hh by (simp add: R_def)
  show ?case
  proof (intro allI impI)
    fix p assume "p < Suc m"
    then consider "p < m" | "p = m" by linarith
    then show "heap (R (Suc m)) out ! p =
             (if takes_y x_len x y_len y (R p) then h y ! nat (cj (R p)) else h x ! nat (ci (R p))) \<and>
           heap (R (Suc m)) out_inds ! p =
             (if takes_y x_len x y_len y (R p) then h y_inds ! nat (cj (R p))
              else h x_inds ! nat (ci (R p)))"
    proof cases
      case 1
      then show ?thesis
        unfolding o oi using Suc.IH [OF le] by simp
    next
      case 2
      then show ?thesis
        unfolding o oi using len by simp
    qed
  qed
qed

lemma merge_run:
  assumes "merge_pre x_len x x_inds y_len y y_inds out_len out out_inds i j h"
  shows "merge x_len x x_inds y_len y y_inds out_len out out_inds i j h =
           Inr (run x_len x x_inds y_len y y_inds out out_inds
                  \<lparr>heap = h, ci = i, cj = j, accesses = []\<rparr> (nat out_len))"
proof (cases "0 \<le> out_len")
  case True
  then have e: "int (nat out_len) = out_len" by simp
  show ?thesis
    using run_refines [OF assms, of "nat out_len"] unfolding e by simp
next
  case False
  then show ?thesis by (simp add: merge_def range_py_def)
qed

lemma run_take_out:
  fixes x_len y_len i j :: int and x x_inds y y_inds out out_inds :: nat
    and h :: "nat \<Rightarrow> ('v::linorder) list" and R
  defines "R \<equiv> run x_len x x_inds y_len y y_inds out out_inds
                  \<lparr>heap = h, ci = i, cj = j, accesses = []\<rparr>"
  assumes pre: "merge_pre x_len x x_inds y_len y y_inds out_len out out_inds i j h"
    and m: "int m \<le> out_len"
  shows "take m (heap (R m) out) =
           map (\<lambda>p. if takes_y x_len x y_len y (R p) then h y ! nat (cj (R p))
                     else h x ! nat (ci (R p))) [0..<m]"
    and "take m (heap (R m) out_inds) =
           map (\<lambda>p. if takes_y x_len x y_len y (R p) then h y_inds ! nat (cj (R p))
                     else h x_inds ! nat (ci (R p))) [0..<m]"
proof -
  have inv: "run_inv x_len y_len out out_inds i j h m (R m)"
    using run_refines [OF pre m] by (simp add: R_def)
  have len: "m \<le> length (heap (R m) out)" "m \<le> length (heap (R m) out_inds)"
    using inv m pre by (simp_all add: run_inv_def merge_pre_def)
  note o = run_outputs [OF pre m, folded R_def]
  show "take m (heap (R m) out) =
           map (\<lambda>p. if takes_y x_len x y_len y (R p) then h y ! nat (cj (R p))
                     else h x ! nat (ci (R p))) [0..<m]"
    using len(1) o by (intro nth_equalityI) simp_all
  show "take m (heap (R m) out_inds) =
           map (\<lambda>p. if takes_y x_len x y_len y (R p) then h y_inds ! nat (cj (R p))
                     else h x_inds ! nat (ci (R p))) [0..<m]"
    using len(2) o by (intro nth_equalityI) simp_all
qed

text \<open>A run that starts exhausted stays so, and every iteration emits from the other.\<close>

lemma run_x_exhausted:
  fixes x_len y_len i j :: int and x x_inds y y_inds out out_inds :: nat
    and h :: "nat \<Rightarrow> ('v::linorder) list" and R
  defines "R \<equiv> run x_len x x_inds y_len y y_inds out out_inds
                  \<lparr>heap = h, ci = i, cj = j, accesses = []\<rparr>"
  assumes pre: "merge_pre x_len x x_inds y_len y y_inds out_len out out_inds i j h"
    and ix: "i = x_len" and m: "int m \<le> out_len"
  shows "ci (R m) = x_len \<and> cj (R m) = j + int m \<and> (int m < out_len \<longrightarrow> takes_y x_len x y_len y (R m))"
  using m
proof (induction m)
  case 0
  have inv: "run_inv x_len y_len out out_inds i j h 0 (R 0)"
    using run_refines [OF pre, of 0] 0 by (simp add: R_def)
  have "0 < out_len \<Longrightarrow> cj (R 0) < y_len \<or> ci (R 0) < x_len"
    using run_inv_unexhausted [OF pre _ inv] by simp
  then show ?case using ix by (auto simp: R_def takes_y_def)
next
  case (Suc m)
  have lt: "int m < out_len" and le: "int m \<le> out_len" using Suc.prems by simp_all
  have ih: "ci (R m) = x_len" "cj (R m) = j + int m" "takes_y x_len x y_len y (R m)"
    using Suc.IH [OF le] lt by simp_all
  have c: "ci (R (Suc m)) = x_len" "cj (R (Suc m)) = j + int (Suc m)"
    using ih by (simp_all add: R_def step_state_ci step_state_cj)
  have inv: "run_inv x_len y_len out out_inds i j h (Suc m) (R (Suc m))"
    using run_refines [OF pre Suc.prems] by (simp add: R_def)
  have "int (Suc m) < out_len \<Longrightarrow> cj (R (Suc m)) < y_len \<or> ci (R (Suc m)) < x_len"
    using run_inv_unexhausted [OF pre _ inv] by simp
  then have "int (Suc m) < out_len \<longrightarrow> takes_y x_len x y_len y (R (Suc m))"
    using c(1) by (auto simp: takes_y_def)
  then show ?case using c by simp
qed

lemma run_y_exhausted:
  fixes x_len y_len i j :: int and x x_inds y y_inds out out_inds :: nat
    and h :: "nat \<Rightarrow> ('v::linorder) list" and R
  defines "R \<equiv> run x_len x x_inds y_len y y_inds out out_inds
                  \<lparr>heap = h, ci = i, cj = j, accesses = []\<rparr>"
  assumes jy: "j = y_len"
  shows "cj (R m) = y_len \<and> ci (R m) = i + int m \<and> \<not> takes_y x_len x y_len y (R m)"
proof (induction m)
  case 0
  show ?case using jy by (simp add: R_def takes_y_def)
next
  case (Suc m)
  have c: "cj (R (Suc m)) = y_len" "ci (R (Suc m)) = i + int (Suc m)"
    using Suc.IH by (simp_all add: R_def step_state_ci step_state_cj)
  then show ?case by (simp add: takes_y_def)
qed

lemma take_drop_eq_map:
  assumes "n + m \<le> length xs"
  shows "take m (drop n xs) = map (\<lambda>p. xs ! (n + p)) [0..<m]"
  using assms by (intro nth_equalityI) simp_all

lemma merge_take_out:
  fixes x_len y_len i j :: int and x x_inds y y_inds out out_inds :: nat
    and h :: "nat \<Rightarrow> ('v::linorder) list" and R
  defines "R \<equiv> run x_len x x_inds y_len y y_inds out out_inds
                  \<lparr>heap = h, ci = i, cj = j, accesses = []\<rparr>"
  assumes pre: "merge_pre x_len x x_inds y_len y y_inds out_len out out_inds i j h"
  shows "take (nat out_len) (heap (R (nat out_len)) out) =
           map (\<lambda>p. if takes_y x_len x y_len y (R p) then h y ! nat (cj (R p))
                     else h x ! nat (ci (R p))) [0..<nat out_len]"
    and "take (nat out_len) (heap (R (nat out_len)) out_inds) =
           map (\<lambda>p. if takes_y x_len x y_len y (R p) then h y_inds ! nat (cj (R p))
                     else h x_inds ! nat (ci (R p))) [0..<nat out_len]"
proof -
  show "take (nat out_len) (heap (R (nat out_len)) out) =
           map (\<lambda>p. if takes_y x_len x y_len y (R p) then h y ! nat (cj (R p))
                     else h x ! nat (ci (R p))) [0..<nat out_len]"
  proof (cases "0 \<le> out_len")
    case True
    then have "int (nat out_len) \<le> out_len" by simp
    from run_take_out(1) [OF pre this] show ?thesis by (simp add: R_def)
  next
    case False
    then show ?thesis by simp
  qed
  show "take (nat out_len) (heap (R (nat out_len)) out_inds) =
           map (\<lambda>p. if takes_y x_len x y_len y (R p) then h y_inds ! nat (cj (R p))
                     else h x_inds ! nat (ci (R p))) [0..<nat out_len]"
  proof (cases "0 \<le> out_len")
    case True
    then have "int (nat out_len) \<le> out_len" by simp
    from run_take_out(2) [OF pre this] show ?thesis by (simp add: R_def)
  next
    case False
    then show ?thesis by simp
  qed
qed

lemma returns_Inr: "returns (Inr a)"
  by (simp add: returns_def)

lemma final_Inr: "final (Inr s) = s"
  by (simp add: final_def)

lemma run_emit_range:
  fixes x_len y_len i j :: int and x x_inds y y_inds out out_inds :: nat
    and h :: "nat \<Rightarrow> ('v::linorder) list" and R
  defines "R \<equiv> run x_len x x_inds y_len y y_inds out out_inds
                  \<lparr>heap = h, ci = i, cj = j, accesses = []\<rparr>"
  assumes pre: "merge_pre x_len x x_inds y_len y y_inds out_len out out_inds i j h"
    and k: "int k < out_len"
  shows "takes_y x_len x y_len y (R k) \<Longrightarrow> j \<le> cj (R k) \<and> cj (R k) < y_len"
    and "\<not> takes_y x_len x y_len y (R k) \<Longrightarrow> i \<le> ci (R k) \<and> ci (R k) < x_len"
    and "heap (R k) x = h x" and "heap (R k) y = h y"
proof -
  have le: "int k \<le> out_len" using k by simp
  have inv: "run_inv x_len y_len out out_inds i j h k (R k)"
    using run_refines [OF pre le] by (simp add: R_def)
  note u = run_inv_unexhausted [OF pre k inv]
  show "takes_y x_len x y_len y (R k) \<Longrightarrow> j \<le> cj (R k) \<and> cj (R k) < y_len"
    using inv by (simp add: takes_y_def run_inv_def)
  show "\<not> takes_y x_len x y_len y (R k) \<Longrightarrow> i \<le> ci (R k) \<and> ci (R k) < x_len"
    using inv u by (auto simp: takes_y_def run_inv_def)
  show "heap (R k) x = h x" "heap (R k) y = h y"
    using inv pre by (auto simp: run_inv_def merge_pre_def separate_def)
qed

text \<open>
  With X ascending, an element of Y emitted before an element of X is strictly below it.
\<close>

lemma run_y_before_x:
  fixes x_len y_len i j :: int and x x_inds y y_inds out out_inds :: nat
    and h :: "nat \<Rightarrow> ('v::linorder) list" and R
  defines "R \<equiv> run x_len x x_inds y_len y y_inds out out_inds
                  \<lparr>heap = h, ci = i, cj = j, accesses = []\<rparr>"
  assumes pre: "merge_pre x_len x x_inds y_len y y_inds out_len out out_inds i j h"
    and sx: "sorted (take (nat x_len) (h x))"
    and qp: "q < p" and p: "int p < out_len"
    and ty: "takes_y x_len x y_len y (R q)" and tx: "\<not> takes_y x_len x y_len y (R p)"
  shows "h y ! nat (cj (R q)) < h x ! nat (ci (R p))"
proof -
  have q: "int q < out_len" using qp p by simp
  have i0: "0 \<le> i" and xl: "x_len \<le> int (length (h x))"
    using pre by (simp_all add: merge_pre_def)
  have cp: "i \<le> ci (R p)" "ci (R p) < x_len"
    using run_emit_range(2) [OF pre p] tx by (simp_all add: R_def)
  have mono: "ci (R q) \<le> ci (R p)"
    unfolding R_def by (rule run_ci_mono) (use qp in simp)
  have hq: "heap (R q) x = h x" "heap (R q) y = h y"
    using run_emit_range(3,4) [OF pre q] by (simp_all add: R_def)
  have invq: "run_inv x_len y_len out out_inds i j h q (R q)"
    using run_refines [OF pre, of q] q by (simp add: R_def)
  have cq: "i \<le> ci (R q)" using invq by (simp add: run_inv_def)
  have "ci (R q) \<noteq> x_len" using mono cp by simp
  then have lt: "h y ! nat (cj (R q)) < h x ! nat (ci (R q))"
    using ty hq by (simp add: takes_y_def)
  have len: "length (take (nat x_len) (h x)) = nat x_len" using xl by simp
  have "take (nat x_len) (h x) ! nat (ci (R q)) \<le> take (nat x_len) (h x) ! nat (ci (R p))"
    by (rule sorted_nth_mono [OF sx]) (use mono cq cp i0 len in simp_all)
  then have "h x ! nat (ci (R q)) \<le> h x ! nat (ci (R p))"
    using mono cq cp i0 by simp
  then show ?thesis using lt by simp
qed

text \<open>The smallest element of a list is the head of its sorted list.\<close>

lemma sort_append_min:
  fixes e :: "'a::linorder"
  assumes "\<forall>z \<in> set as \<union> set bs. e \<le> z"
  shows "sort (as @ e # bs) = e # sort (as @ bs)"
  using assms
proof (induction as)
  case Nil
  then show ?case by (simp add: insort_is_Cons)
next
  case (Cons a as)
  have ea: "e \<le> a" using Cons.prems by simp
  have ih: "sort (as @ e # bs) = e # sort (as @ bs)" using Cons by simp
  show ?case
  proof (cases "a \<le> e")
    case True
    then have "a = e" using ea by simp
    moreover have "\<forall>z \<in> set (sort (as @ bs)). e \<le> z" using Cons.prems by simp
    ultimately show ?thesis by (simp add: ih insort_is_Cons)
  next
    case False
    then show ?thesis by (simp add: ih)
  qed
qed

lemma sorted_drop_head:
  fixes xs :: "('a::linorder) list"
  assumes "sorted xs" and "n < length xs"
  shows "drop n xs = xs ! n # drop (Suc n) xs" and "\<forall>z \<in> set (drop n xs). xs ! n \<le> z"
proof -
  show c: "drop n xs = xs ! n # drop (Suc n) xs"
    using assms(2) by (simp add: Cons_nth_drop_Suc)
  have "sorted (drop n xs)" using assms(1) by (simp add: sorted_wrt_drop)
  then have "sorted (xs ! n # drop (Suc n) xs)" using c by simp
  then have "\<forall>z \<in> set (drop (Suc n) xs). xs ! n \<le> z" by simp
  then show "\<forall>z \<in> set (drop n xs). xs ! n \<le> z"
    unfolding c by simp
qed

text \<open>
  With both runs ascending, what has been emitted, followed by the sorted list of what
  remains, is the sorted list of the two tails.
\<close>

lemma run_sort_inv:
  fixes x_len y_len i j :: int and x x_inds y y_inds out out_inds :: nat
    and h :: "nat \<Rightarrow> ('v::linorder) list" and R V X' Y'
  defines "R \<equiv> run x_len x x_inds y_len y y_inds out out_inds
                  \<lparr>heap = h, ci = i, cj = j, accesses = []\<rparr>"
    and "V \<equiv> \<lambda>p. if takes_y x_len x y_len y (R p) then h y ! nat (cj (R p))
                   else h x ! nat (ci (R p))"
    and "X' \<equiv> take (nat x_len) (h x)" and "Y' \<equiv> take (nat y_len) (h y)"
  assumes pre: "merge_pre x_len x x_inds y_len y y_inds out_len out out_inds i j h"
    and sx: "sorted X'" and sy: "sorted Y'" and m: "int m \<le> out_len"
  shows "map V [0..<m] @ sort (drop (nat (ci (R m))) X' @ drop (nat (cj (R m))) Y') =
         sort (drop (nat i) X' @ drop (nat j) Y')"
  using m
proof (induction m)
  case 0
  show ?case by (simp add: R_def)
next
  case (Suc m)
  have lt: "int m < out_len" and le: "int m \<le> out_len" using Suc.prems by simp_all
  note ih = Suc.IH [OF le]
  have inv: "run_inv x_len y_len out out_inds i j h m (R m)"
    using run_refines [OF pre le] by (simp add: R_def)
  have c: "0 \<le> ci (R m)" "ci (R m) \<le> x_len" "0 \<le> cj (R m)" "cj (R m) \<le> y_len"
    using inv pre by (auto simp: run_inv_def merge_pre_def)
  have "nat x_len \<le> length (h x)" "nat y_len \<le> length (h y)"
    using pre unfolding merge_pre_def by linarith+
  then have lx: "length X' = nat x_len" and ly: "length Y' = nat y_len"
    by (simp_all add: X'_def Y'_def)
  have hh: "heap (R m) x = h x" "heap (R m) y = h y"
    using run_emit_range(3,4) [OF pre lt] by (simp_all add: R_def)
  have nx: "ci (R m) < x_len \<Longrightarrow> X' ! nat (ci (R m)) = h x ! nat (ci (R m))"
    using c by (simp add: X'_def)
  have ny: "cj (R m) < y_len \<Longrightarrow> Y' ! nat (cj (R m)) = h y ! nat (cj (R m))"
    using c by (simp add: Y'_def)
  show ?case
  proof (cases "takes_y x_len x y_len y (R m)")
    case True
    then have b: "cj (R m) < y_len" by (simp add: takes_y_def)
    then have bn: "nat (cj (R m)) < length Y'" using c ly by simp
    have Vm: "V m = h y ! nat (cj (R m))" using True by (simp add: V_def)
    have cs: "ci (R (Suc m)) = ci (R m)" "nat (cj (R (Suc m))) = Suc (nat (cj (R m)))"
      using True c by (simp_all add: R_def step_state_ci step_state_cj nat_add_distrib)
    note d = sorted_drop_head [OF sy bn]
    have ey: "\<forall>z \<in> set (drop (Suc (nat (cj (R m)))) Y'). V m \<le> z"
      using d unfolding Vm ny [OF b, symmetric] by simp
    have ex: "\<forall>z \<in> set (drop (nat (ci (R m))) X'). V m \<le> z"
    proof (cases "ci (R m) = x_len")
      case True
      then show ?thesis using lx by simp
    next
      case False
      then have a: "ci (R m) < x_len" using c by simp
      then have an: "nat (ci (R m)) < length X'" using c lx by simp
      have "h y ! nat (cj (R m)) < h x ! nat (ci (R m))"
        using True False hh by (simp add: takes_y_def)
      then have "V m \<le> X' ! nat (ci (R m))"
        unfolding Vm nx [OF a] by simp
      then show ?thesis
        using sorted_drop_head(2) [OF sx an] by auto
    qed
    have "sort (drop (nat (ci (R m))) X' @ drop (nat (cj (R m))) Y') =
          V m # sort (drop (nat (ci (R m))) X' @ drop (Suc (nat (cj (R m)))) Y')"
      unfolding d(1) ny [OF b] Vm [symmetric]
      by (rule sort_append_min) (use ex ey in auto)
    then show ?thesis
      using ih by (simp add: cs)
  next
    case False
    have a: "ci (R m) < x_len"
      using run_emit_range(2) [OF pre lt] False by (simp add: R_def)
    then have an: "nat (ci (R m)) < length X'" using c lx by simp
    have Vm: "V m = h x ! nat (ci (R m))" using False by (simp add: V_def)
    have cs: "cj (R (Suc m)) = cj (R m)" "nat (ci (R (Suc m))) = Suc (nat (ci (R m)))"
      using False c by (simp_all add: R_def step_state_ci step_state_cj nat_add_distrib)
    note d = sorted_drop_head [OF sx an]
    have ex: "\<forall>z \<in> set (drop (Suc (nat (ci (R m)))) X'). V m \<le> z"
      using d unfolding Vm nx [OF a, symmetric] by simp
    have ey: "\<forall>z \<in> set (drop (nat (cj (R m))) Y'). V m \<le> z"
    proof (cases "cj (R m) < y_len")
      case True
      then have bn: "nat (cj (R m)) < length Y'" using c ly by simp
      have "\<not> h y ! nat (cj (R m)) < h x ! nat (ci (R m))"
        using True False a hh by (simp add: takes_y_def)
      then have "V m \<le> Y' ! nat (cj (R m))"
        unfolding Vm ny [OF True] by simp
      then show ?thesis
        using sorted_drop_head(2) [OF sy bn] by auto
    next
      case False
      then show ?thesis using ly c by simp
    qed
    have "sort ([] @ V m # (drop (Suc (nat (ci (R m)))) X' @ drop (nat (cj (R m))) Y')) =
          V m # sort ([] @ (drop (Suc (nat (ci (R m)))) X' @ drop (nat (cj (R m))) Y'))"
      by (rule sort_append_min) (use ex ey in auto)
    then have "sort (drop (nat (ci (R m))) X' @ drop (nat (cj (R m))) Y') =
          V m # sort (drop (Suc (nat (ci (R m)))) X' @ drop (nat (cj (R m))) Y')"
      unfolding d(1) nx [OF a] Vm [symmetric] by simp
    then show ?thesis
      using ih by (simp add: cs)
  qed
qed

text \<open>
  One iteration and the loop, with no assumption on the call: what is written to \<open>out\<close>
  and how the cursors move.
\<close>

lemma logged_refl: "logged [] s s"
  by (simp add: logged_def)

lemma rd_logged:
  assumes "logged ws s s1" and "\<And>s'. logged ws s s' \<Longrightarrow> E s'"
  shows "sat (rd b r n s1) (\<lambda>(v, s2). logged ws s s2) E"
proof -
  have l: "logged ws s (s1\<lparr>accesses := accesses s1 @ [Rd b n]\<rparr>)"
    using assms(1) by (simp add: logged_def out_writes_def is_out_write_def)
  show ?thesis
    using l assms(2) [OF l]
    by (cases "getitem (heap s1 r) n") (simp_all add: sat_def rd_def Let_def)
qed

lemma wr_out_logged:
  assumes "logged [] s s1" and "\<And>s'. logged [Wr Out k] s s' \<Longrightarrow> E s'"
  shows "sat (wr Out r k v s1) (logged [Wr Out k] s) E"
proof -
  have l: "logged [Wr Out k] s (s1\<lparr>accesses := accesses s1 @ [Wr Out k]\<rparr>)"
    using assms(1) by (simp add: logged_def out_writes_def is_out_write_def)
  then have l': "\<And>hp. logged [Wr Out k] s (s1\<lparr>accesses := accesses s1 @ [Wr Out k], heap := hp\<rparr>)"
    by (simp add: logged_def)
  show ?thesis
    using l' assms(2) [OF l]
    by (cases "setitem (heap s1 r) k v") (simp_all add: sat_def wr_def Let_def)
qed

lemma wr_inds_logged:
  assumes "logged ws s s1" and "\<And>s'. logged ws s s' \<Longrightarrow> E s'"
  shows "sat (wr Out_inds r k v s1) (logged ws s) E"
proof -
  have l: "logged ws s (s1\<lparr>accesses := accesses s1 @ [Wr Out_inds k]\<rparr>)"
    using assms(1) by (simp add: logged_def out_writes_def is_out_write_def)
  then have l': "\<And>hp. logged ws s (s1\<lparr>accesses := accesses s1 @ [Wr Out_inds k], heap := hp\<rparr>)"
    by (simp add: logged_def)
  show ?thesis
    using l' assms(2) [OF l]
    by (cases "setitem (heap s1 r) k v") (simp_all add: sat_def wr_def Let_def)
qed

lemma test_logged:
  assumes "\<And>s'. logged [] s s' \<Longrightarrow> E s'"
  shows "sat (merge_test x_len x y_len y s) (\<lambda>(t, s'). logged [] s s') E"
proof (cases "cj s < y_len \<and> ci s \<noteq> x_len")
  case False
  then show ?thesis
    by (auto simp: merge_test_def sat_def logged_refl)
next
  case True
  then have eq: "merge_test x_len x y_len y s =
      bind_exc (rd Y y (cj s) s) (\<lambda>(yv, s1).
      bind_exc (rd X x (ci s1) s1) (\<lambda>(xv, s2). Inr (yv < xv, s2)))"
    by (simp add: merge_test_def)
  show ?thesis
    unfolding eq
    apply (rule sat_bind [OF rd_logged])
      apply (rule logged_refl)
     apply (erule assms)
    apply clarify
    apply (rule sat_bind [OF rd_logged])
      apply assumption
     apply (erule assms)
    apply clarify
    apply (rule sat_Inr)
    apply simp
    done
qed

lemma body_logged:
  "sat (merge_body x_len x x_inds y_len y y_inds out out_inds k s)
     (\<lambda>s'. out_writes (accesses s') = out_writes (accesses s) @ [Wr Out k] \<and>
        (ci s' = ci s + 1 \<and> cj s' = cj s \<or> ci s' = ci s \<and> cj s' = cj s + 1))
     (\<lambda>s'. logged [] s s' \<or> logged [Wr Out k] s s')"
  unfolding merge_body_def
  apply (rule sat_bind [OF test_logged])
   apply simp
  apply clarify
  subgoal for t s0
    apply (cases t)
     apply simp_all
     apply (rule sat_bind [OF rd_logged], assumption, simp)
     apply clarify
     apply (rule sat_bind [OF wr_out_logged], assumption, simp)
     apply (rule sat_bind [OF rd_logged], assumption, simp)
     apply clarify
     apply (rule sat_bind [OF wr_inds_logged], assumption, simp)
     apply (rule sat_Inr)
     apply (simp add: logged_def)
    apply (rule sat_bind [OF rd_logged], assumption, simp)
    apply clarify
    apply (rule sat_bind [OF wr_out_logged], assumption, simp)
    apply (rule sat_bind [OF rd_logged], assumption, simp)
    apply clarify
    apply (rule sat_bind [OF wr_inds_logged], assumption, simp)
    apply (rule sat_Inr)
    apply (simp add: logged_def)
    done
  done

lemma body_logged_Inr:
  assumes "merge_body x_len x x_inds y_len y y_inds out out_inds k s = Inr s'"
  shows "out_writes (accesses s') = out_writes (accesses s) @ [Wr Out k]"
    and "ci s' = ci s + 1 \<and> cj s' = cj s \<or> ci s' = ci s \<and> cj s' = cj s + 1"
  using body_logged [of x_len x x_inds y_len y y_inds out out_inds k s] assms
  by (simp_all add: sat_def)

lemma body_logged_Inl:
  assumes "merge_body x_len x x_inds y_len y y_inds out out_inds k s = Inl (e, s')"
  shows "ci s' = ci s" and "cj s' = cj s"
    and "out_writes (accesses s') = out_writes (accesses s) \<or>
         out_writes (accesses s') = out_writes (accesses s) @ [Wr Out k]"
  using body_logged [of x_len x x_inds y_len y y_inds out out_inds k s] assms
  by (auto simp: sat_def logged_def)

lemma loop_logged:
  fixes s :: "('v::linorder) mstate"
  shows "ci s \<le> ci (final (merge_loop x_len x x_inds y_len y y_inds out out_inds ks s)) \<and>
    cj s \<le> cj (final (merge_loop x_len x x_inds y_len y y_inds out out_inds ks s)) \<and>
    (\<exists>m \<le> length ks.
       out_writes (accesses (final (merge_loop x_len x x_inds y_len y y_inds out out_inds ks s))) =
         out_writes (accesses s) @ map (Wr Out) (take m ks) \<and>
       (ci (final (merge_loop x_len x x_inds y_len y y_inds out out_inds ks s)) - ci s) +
       (cj (final (merge_loop x_len x x_inds y_len y y_inds out out_inds ks s)) - cj s) \<le> int m) \<and>
    (returns (merge_loop x_len x x_inds y_len y y_inds out out_inds ks s) \<longrightarrow>
       out_writes (accesses (final (merge_loop x_len x x_inds y_len y y_inds out out_inds ks s))) =
         out_writes (accesses s) @ map (Wr Out) ks \<and>
       (ci (final (merge_loop x_len x x_inds y_len y y_inds out out_inds ks s)) - ci s) +
       (cj (final (merge_loop x_len x x_inds y_len y y_inds out out_inds ks s)) - cj s) =
         int (length ks))"
proof (induction ks arbitrary: s)
  case Nil
  show ?case by (simp add: final_def returns_def)
next
  case (Cons k ks)
  show ?case
  proof (cases "merge_body x_len x x_inds y_len y y_inds out out_inds k s")
    case (Inl a)
    obtain e s1 where a: "a = (e, s1)" by (cases a)
    have b: "merge_body x_len x x_inds y_len y y_inds out out_inds k s = Inl (e, s1)"
      using Inl a by simp
    have l: "merge_loop x_len x x_inds y_len y y_inds out out_inds (k # ks) s = Inl (e, s1)"
      using b by (simp add: bind_exc_def)
    note f = body_logged_Inl [OF b]
    have w: "\<exists>m \<le> length (k # ks).
        out_writes (accesses s1) = out_writes (accesses s) @ map (Wr Out) (take m (k # ks)) \<and>
        (ci s1 - ci s) + (cj s1 - cj s) \<le> int m"
    proof (cases "out_writes (accesses s1) = out_writes (accesses s)")
      case True
      then show ?thesis using f(1,2) by (intro exI [of _ 0]) simp
    next
      case False
      then have "out_writes (accesses s1) = out_writes (accesses s) @ [Wr Out k]"
        using f(3) by simp
      then show ?thesis using f(1,2) by (intro exI [of _ 1]) simp
    qed
    show ?thesis
      unfolding l using f(1,2) w by (simp add: final_def returns_def)
  next
    case (Inr s1)
    have l: "merge_loop x_len x x_inds y_len y y_inds out out_inds (k # ks) s =
        merge_loop x_len x x_inds y_len y y_inds out out_inds ks s1"
      using Inr by (simp add: bind_exc_def)
    let ?F = "final (merge_loop x_len x x_inds y_len y y_inds out out_inds ks s1)"
    note f = body_logged_Inr [OF Inr]
    note ih = Cons.IH [of s1]
    from ih obtain m where m: "m \<le> length ks"
      "out_writes (accesses ?F) = out_writes (accesses s1) @ map (Wr Out) (take m ks)"
      "(ci ?F - ci s1) + (cj ?F - cj s1) \<le> int m"
      by blast
    have c: "ci s \<le> ci ?F" "cj s \<le> cj ?F" using ih f(2) by auto
    have adv: "(ci s1 - ci s) + (cj s1 - cj s) = 1" using f(2) by auto
    have w: "\<exists>m' \<le> length (k # ks).
        out_writes (accesses ?F) = out_writes (accesses s) @ map (Wr Out) (take m' (k # ks)) \<and>
        (ci ?F - ci s) + (cj ?F - cj s) \<le> int m'"
      using m f(1) adv by (intro exI [of _ "Suc m"]) simp
    have r: "returns (merge_loop x_len x x_inds y_len y y_inds out out_inds ks s1) \<longrightarrow>
        out_writes (accesses ?F) = out_writes (accesses s) @ map (Wr Out) (k # ks) \<and>
        (ci ?F - ci s) + (cj ?F - cj s) = int (length (k # ks))"
      using ih f(1) adv by auto
    show ?thesis
      unfolding l using c w r by blast
  qed
qed

lemma take_range_py: "m \<le> nat n \<Longrightarrow> take m (range_py n) = range_py (int m)"
  by (simp add: range_py_def take_map)

lemma not_returns_Inl:
  fixes r :: "('v, 'a) outcome"
  assumes "\<not> returns r"
  shows "\<exists>s. r = Inl (IndexError, s)"
proof (cases r)
  case (Inl a)
  obtain e s where "a = (e, s)" by (cases a)
  then show ?thesis using Inl by (cases e) simp
next
  case (Inr b)
  then show ?thesis using assms by (simp add: returns_def)
qed

section \<open>The scenarios of the specification\<close>

text \<open>
  C2. On \<open>x = [1,3,5]\<close>, \<open>x_inds = [10,11,12]\<close>, \<open>y = [2,3,6]\<close>, \<open>y_inds = [20,21,22]\<close>,
  \<open>i = 0\<close>, \<open>j = 0\<close>, \<open>out_len = 6\<close>, the call returns and leaves \<open>out = [1,2,3,3,5,6]\<close> and
  \<open>out_inds = [10,20,11,21,12,22]\<close>.
\<close>

theorem merge_concrete_scenario:
  "returns (merge 3 0 1 3 2 3 6 4 5 0 0 (scenario 6)) \<and>
   heap (final (merge 3 0 1 3 2 3 6 4 5 0 0 (scenario 6))) 4 = [1, 2, 3, 3, 5, 6] \<and>
   heap (final (merge 3 0 1 3 2 3 6 4 5 0 0 (scenario 6))) 5 = [10, 20, 11, 21, 12, 22]"
  by code_simp

text \<open>
  C8. On the same inputs, a call with \<open>i = 0\<close>, \<open>j = 0\<close>, \<open>out_len = 2\<close> leaves \<open>out = [1,2]\<close>
  and \<open>out_inds = [10,20]\<close>; a call with \<open>i = 1\<close>, \<open>j = 1\<close>, \<open>out_len = 4\<close> leaves
  \<open>[3,3,5,6]\<close> and \<open>[11,21,12,22]\<close>; the two outputs, one after the other, are the
  output of the single call with \<open>out_len = 6\<close>.
\<close>

theorem merge_chunked_scenario:
  "returns (merge 3 0 1 3 2 3 2 4 5 0 0 (scenario 2)) \<and>
   heap (final (merge 3 0 1 3 2 3 2 4 5 0 0 (scenario 2))) 4 = [1, 2] \<and>
   heap (final (merge 3 0 1 3 2 3 2 4 5 0 0 (scenario 2))) 5 = [10, 20] \<and>
   returns (merge 3 0 1 3 2 3 4 4 5 1 1 (scenario 4)) \<and>
   heap (final (merge 3 0 1 3 2 3 4 4 5 1 1 (scenario 4))) 4 = [3, 3, 5, 6] \<and>
   heap (final (merge 3 0 1 3 2 3 4 4 5 1 1 (scenario 4))) 5 = [11, 21, 12, 22] \<and>
   heap (final (merge 3 0 1 3 2 3 2 4 5 0 0 (scenario 2))) 4 @
     heap (final (merge 3 0 1 3 2 3 4 4 5 1 1 (scenario 4))) 4 =
     heap (final (merge 3 0 1 3 2 3 6 4 5 0 0 (scenario 6))) 4 \<and>
   heap (final (merge 3 0 1 3 2 3 2 4 5 0 0 (scenario 2))) 5 @
     heap (final (merge 3 0 1 3 2 3 4 4 5 1 1 (scenario 4))) 5 =
     heap (final (merge 3 0 1 3 2 3 6 4 5 0 0 (scenario 6))) 5"
  by code_simp

section \<open>Frame\<close>

text \<open>
  C7. Whichever way the call ends, it leaves every buffer other than \<open>out\<close> and \<open>out_inds\<close>
  as it was; so \<open>x\<close>, \<open>x_inds\<close>, \<open>y\<close> and \<open>y_inds\<close> are unchanged whenever they are not
  the output buffers themselves. No buffer changes its length, the cells from position
  \<open>out_len\<close> on keep their contents, every subscript write is to \<open>out\<close> or \<open>out_inds\<close> at
  a position in \<open>0 .. out_len - 1\<close>, and with \<open>out_len \<le> 0\<close> the call returns at once,
  with the store as it was and no access made.
\<close>

theorem merge_frame:
  "(\<forall>r. r \<noteq> out \<and> r \<noteq> out_inds \<longrightarrow>
      heap (final (merge x_len x x_inds y_len y y_inds out_len out out_inds i j h)) r = h r) \<and>
   (\<forall>r. length (heap (final (merge x_len x x_inds y_len y y_inds out_len out out_inds i j h)) r)
      = length (h r)) \<and>
   (\<forall>r. drop (nat out_len) (heap (final (merge x_len x x_inds y_len y y_inds out_len out out_inds i j h)) r)
      = drop (nat out_len) (h r)) \<and>
   (\<forall>a \<in> set (accesses (final (merge x_len x x_inds y_len y y_inds out_len out out_inds i j h))).
      write_within out_len a) \<and>
   (out_len \<le> 0 \<longrightarrow>
      merge x_len x x_inds y_len y y_inds out_len out out_inds i j h =
      Inr \<lparr>heap = h, ci = i, cj = j, accesses = []\<rparr>)"
proof -
  let ?s0 = "\<lparr>heap = h, ci = i, cj = j, accesses = []\<rparr> :: 'a mstate"
  let ?s' = "final (merge x_len x x_inds y_len y y_inds out_len out out_inds i j h)"
  have fr: "(\<forall>r. r \<noteq> out \<and> r \<noteq> out_inds \<longrightarrow> heap ?s' r = heap ?s0 r) \<and>
         (\<forall>r. length (heap ?s' r) = length (heap ?s0 r)) \<and>
         (\<forall>r p. int p \<notin> set (range_py out_len) \<longrightarrow> heap ?s' r ! p = heap ?s0 r ! p)"
    unfolding merge_def by (rule loop_frame [OF range_py_nonneg])
  have 1: "\<forall>r. r \<noteq> out \<and> r \<noteq> out_inds \<longrightarrow> heap ?s' r = h r"
    using fr by simp
  have 2: "\<forall>r. length (heap ?s' r) = length (h r)"
    using fr by simp
  have nth: "\<forall>r p. nat out_len \<le> p \<longrightarrow> heap ?s' r ! p = h r ! p"
    using fr by (auto simp: range_py_set)
  have 3: "\<forall>r. drop (nat out_len) (heap ?s' r) = drop (nat out_len) (h r)"
    using 2 nth by (auto intro: drop_eqI)
  have 4: "\<forall>a \<in> set (accesses ?s'). write_within out_len a"
    unfolding merge_def
    using loop_writes [OF range_py_nonneg, of out_len out_len ?s0
        x_len x x_inds y_len y y_inds out out_inds]
    by (simp add: range_py_set)
  have 5: "out_len \<le> 0 \<longrightarrow>
      merge x_len x x_inds y_len y y_inds out_len out out_inds i j h = Inr ?s0"
    by (simp add: merge_def range_py_nonpos)
  show ?thesis using 1 2 3 4 5 by blast
qed

theorem merge_frame_witness:
  "(0::nat) \<noteq> 4 \<and> (0::nat) \<noteq> 5 \<and>
   heap (final (merge 3 0 1 3 2 3 2 4 5 0 0 (scenario 6))) 0 = scenario 6 0 \<and>
   drop (nat 2) (heap (final (merge 3 0 1 3 2 3 2 4 5 0 0 (scenario 6))) 4) =
     drop (nat 2) (scenario 6 4) \<and>
   Wr Out 1 \<in> set (accesses (final (merge 3 0 1 3 2 3 2 4 5 0 0 (scenario 6)))) \<and>
   write_within 2 (Wr Out 1) \<and>
   (0::int) \<le> 0 \<and>
   merge 3 0 1 3 2 3 0 4 5 0 0 (scenario 6) =
     Inr \<lparr>heap = scenario 6, ci = 0, cj = 0, accesses = []\<rparr>"
proof -
  have m: "Wr Out 1 \<in> set (accesses (final (merge 3 0 1 3 2 3 2 4 5 0 0 (scenario 6))))"
    by code_simp
  note f = merge_frame [where x_len = 3 and x = 0 and x_inds = 1 and y_len = 3 and y = 2
      and y_inds = 3 and out_len = 2 and out = 4 and out_inds = 5 and i = 0 and j = 0
      and h = "scenario 6"]
  note g = merge_frame [where x_len = 3 and x = 0 and x_inds = 1 and y_len = 3 and y = 2
      and y_inds = 3 and out_len = 0 and out = 4 and out_inds = 5 and i = 0 and j = 0
      and h = "scenario 6"]
  have 1: "heap (final (merge 3 0 1 3 2 3 2 4 5 0 0 (scenario 6))) 0 = scenario 6 0"
    using f by simp
  have 2: "drop (nat 2) (heap (final (merge 3 0 1 3 2 3 2 4 5 0 0 (scenario 6))) 4) =
     drop (nat 2) (scenario 6 4)"
    using f by blast
  have 3: "write_within 2 (Wr Out 1)"
    using f m by blast
  have 4: "merge 3 0 1 3 2 3 0 4 5 0 0 (scenario 6) =
     Inr \<lparr>heap = scenario 6, ci = 0, cj = 0, accesses = []\<rparr>"
    using g by simp
  show ?thesis using m 1 2 3 4 by simp
qed

section \<open>Subscripts stay within the runs\<close>

text \<open>
  C5. With \<open>0 \<le> i \<le> x_len\<close>, \<open>0 \<le> j \<le> y_len\<close> and
  \<open>out_len \<le> (x_len - i) + (y_len - j)\<close>, every subscript the call evaluates on \<open>x\<close> or
  \<open>x_inds\<close> is in \<open>0 .. x_len - 1\<close> and every one on \<open>y\<close> or \<open>y_inds\<close> is in
  \<open>0 .. y_len - 1\<close>: no run is read at or past its length. When, besides, the buffers
  hold at least their declared lengths, no subscript raises and the call returns.
\<close>

theorem merge_reads_in_bounds:
  assumes "0 \<le> i" and "i \<le> x_len" and "0 \<le> j" and "j \<le> y_len"
    and "out_len \<le> (x_len - i) + (y_len - j)"
  shows "(\<forall>a \<in> set (accesses (final (merge x_len x x_inds y_len y y_inds out_len out out_inds i j h))).
            in_bounds x_len y_len out_len a) \<and>
         (x_len \<le> int (length (h x)) \<and> x_len \<le> int (length (h x_inds)) \<and>
          y_len \<le> int (length (h y)) \<and> y_len \<le> int (length (h y_inds)) \<and>
          out_len \<le> int (length (h out)) \<and> out_len \<le> int (length (h out_inds)) \<longrightarrow>
          returns (merge x_len x x_inds y_len y y_inds out_len out out_inds i j h))"
proof -
  let ?s0 = "\<lparr>heap = h, ci = i, cj = j, accesses = []\<rparr> :: 'a mstate"
  have c: "cursors_ok x_len y_len (int (length (range_py out_len))) ?s0"
    using assms by (simp add: cursors_ok_def range_py_length)
  have 1: "\<forall>a \<in> set (accesses (final (merge x_len x x_inds y_len y y_inds out_len out out_inds i j h))).
            in_bounds x_len y_len out_len a"
    unfolding merge_def
    using loop_in_bounds [OF range_py_nonneg, of out_len out_len x_len y_len ?s0
        x x_inds y y_inds out out_inds] c
    by (simp add: range_py_set)
  have 2: "returns (merge x_len x x_inds y_len y y_inds out_len out out_inds i j h)"
    if "x_len \<le> int (length (h x)) \<and> x_len \<le> int (length (h x_inds)) \<and>
          y_len \<le> int (length (h y)) \<and> y_len \<le> int (length (h y_inds)) \<and>
          out_len \<le> int (length (h out)) \<and> out_len \<le> int (length (h out_inds))"
  proof -
    have "\<exists>s'. merge_loop x_len x x_inds y_len y y_inds out out_inds (range_py out_len) ?s0 = Inr s'"
      by (rule loop_returns [OF _ c]) (use that in \<open>auto simp: range_py_set\<close>)
    then show ?thesis by (auto simp: merge_def returns_def)
  qed
  show ?thesis using 1 2 by blast
qed

theorem merge_reads_in_bounds_witness:
  "(0::int) \<le> 0 \<and> (0::int) \<le> 3 \<and> (6::int) \<le> (3 - 0) + (3 - 0) \<and>
   Rd X 2 \<in> set (accesses (final (merge 3 0 1 3 2 3 6 4 5 0 0 (scenario 6)))) \<and>
   in_bounds 3 3 6 (Rd X 2) \<and>
   3 \<le> int (length (scenario 6 0)) \<and> 3 \<le> int (length (scenario 6 1)) \<and>
   3 \<le> int (length (scenario 6 2)) \<and> 3 \<le> int (length (scenario 6 3)) \<and>
   6 \<le> int (length (scenario 6 4)) \<and> 6 \<le> int (length (scenario 6 5)) \<and>
   returns (merge 3 0 1 3 2 3 6 4 5 0 0 (scenario 6))"
proof -
  have m: "Rd X 2 \<in> set (accesses (final (merge 3 0 1 3 2 3 6 4 5 0 0 (scenario 6))))"
    by code_simp
  have sz: "3 \<le> int (length (scenario 6 0)) \<and> 3 \<le> int (length (scenario 6 1)) \<and>
   3 \<le> int (length (scenario 6 2)) \<and> 3 \<le> int (length (scenario 6 3)) \<and>
   6 \<le> int (length (scenario 6 4)) \<and> 6 \<le> int (length (scenario 6 5))"
    by (simp add: scenario_def)
  have f: "(\<forall>a \<in> set (accesses (final (merge 3 0 1 3 2 3 6 4 5 0 0 (scenario 6)))).
            in_bounds 3 3 6 a) \<and>
         (3 \<le> int (length (scenario 6 0)) \<and> 3 \<le> int (length (scenario 6 1)) \<and>
          3 \<le> int (length (scenario 6 2)) \<and> 3 \<le> int (length (scenario 6 3)) \<and>
          6 \<le> int (length (scenario 6 4)) \<and> 6 \<le> int (length (scenario 6 5)) \<longrightarrow>
          returns (merge 3 0 1 3 2 3 6 4 5 0 0 (scenario 6)))"
    by (rule merge_reads_in_bounds) simp_all
  have 1: "in_bounds 3 3 6 (Rd X 2)" using f m by blast
  have 2: "returns (merge 3 0 1 3 2 3 6 4 5 0 0 (scenario 6))" using f sz by blast
  show ?thesis using m sz 1 2 by simp
qed

section \<open>Iterations and cursors\<close>

text \<open>
  C9, amended. For \<open>0 \<le> out_len\<close> and any call, whichever way it ends: the cursors end
  at or above where they started; the writes to \<open>out\<close> made are those at the positions
  \<open>0, \<dots>, m - 1\<close>, once each and in that order, for some \<open>m \<le> out_len\<close>, and the
  cursors have advanced by at most \<open>m\<close> together. When the call returns, \<open>m = out_len\<close>:
  the body has run exactly \<open>out_len\<close> times and the cursors have advanced by \<open>out_len\<close>
  together. The call returns whenever the cursors start within their runs, \<open>out_len\<close>
  is at most what remains of the two runs, and the buffers hold at least their declared
  lengths. Every run of the body that completes advances exactly one of the two cursors,
  by one; one that raises leaves both where they were.
\<close>

theorem merge_iterations:
  "(0 \<le> out_len \<longrightarrow>
      i \<le> ci (final (merge x_len x x_inds y_len y y_inds out_len out out_inds i j h)) \<and>
      j \<le> cj (final (merge x_len x x_inds y_len y y_inds out_len out out_inds i j h)) \<and>
      out_writes (accesses (final (merge x_len x x_inds y_len y y_inds out_len out out_inds i j h)))
        = map (Wr Out) (range_py (int (length (out_writes (accesses
            (final (merge x_len x x_inds y_len y y_inds out_len out out_inds i j h))))))) \<and>
      int (length (out_writes (accesses
            (final (merge x_len x x_inds y_len y y_inds out_len out out_inds i j h))))) \<le> out_len \<and>
      (ci (final (merge x_len x x_inds y_len y y_inds out_len out out_inds i j h)) - i) +
      (cj (final (merge x_len x x_inds y_len y y_inds out_len out out_inds i j h)) - j)
        \<le> int (length (out_writes (accesses
            (final (merge x_len x x_inds y_len y y_inds out_len out out_inds i j h))))) \<and>
      (returns (merge x_len x x_inds y_len y y_inds out_len out out_inds i j h) \<longrightarrow>
         out_writes (accesses (final (merge x_len x x_inds y_len y y_inds out_len out out_inds i j h)))
           = map (Wr Out) (range_py out_len) \<and>
         int (length (range_py out_len)) = out_len \<and>
         (ci (final (merge x_len x x_inds y_len y y_inds out_len out out_inds i j h)) - i) +
         (cj (final (merge x_len x x_inds y_len y y_inds out_len out out_inds i j h)) - j) = out_len)) \<and>
   (0 \<le> i \<and> i \<le> x_len \<and> 0 \<le> j \<and> j \<le> y_len \<and>
    out_len \<le> (x_len - i) + (y_len - j) \<and>
    x_len \<le> int (length (h x)) \<and> x_len \<le> int (length (h x_inds)) \<and>
    y_len \<le> int (length (h y)) \<and> y_len \<le> int (length (h y_inds)) \<and>
    out_len \<le> int (length (h out)) \<and> out_len \<le> int (length (h out_inds)) \<longrightarrow>
      returns (merge x_len x x_inds y_len y y_inds out_len out out_inds i j h)) \<and>
   (\<forall>k s s'. merge_body x_len x x_inds y_len y y_inds out out_inds k s = Inr s' \<longrightarrow>
      (ci s' = ci s + 1 \<and> cj s' = cj s) \<or> (ci s' = ci s \<and> cj s' = cj s + 1)) \<and>
   (\<forall>k s e s'. merge_body x_len x x_inds y_len y y_inds out out_inds k s = Inl (e, s') \<longrightarrow>
      ci s' = ci s \<and> cj s' = cj s)"
proof -
  let ?s0 = "\<lparr>heap = h, ci = i, cj = j, accesses = []\<rparr> :: 'a mstate"
  let ?M = "merge x_len x x_inds y_len y y_inds out_len out out_inds i j h"
  let ?F = "final ?M"
  let ?W = "out_writes (accesses ?F)"
  have M: "?M = merge_loop x_len x x_inds y_len y y_inds out out_inds (range_py out_len) ?s0"
    by (simp add: merge_def)
  note L = loop_logged [of ?s0 x_len x x_inds y_len y y_inds out out_inds "range_py out_len",
      folded M]
  have c: "i \<le> ci ?F" "j \<le> cj ?F" using L by simp_all
  from L obtain m where m: "m \<le> length (range_py out_len)"
    "?W = out_writes (accesses ?s0) @ map (Wr Out) (take m (range_py out_len))"
    "(ci ?F - ci ?s0) + (cj ?F - cj ?s0) \<le> int m"
    by blast
  have mn: "m \<le> nat out_len" using m(1) by (simp add: range_py_length)
  have W: "?W = map (Wr Out) (range_py (int m))"
    using m(2) by (simp add: take_range_py [OF mn] out_writes_def)
  have lm: "length ?W = m" unfolding W by (simp add: range_py_length)
  have w1: "?W = map (Wr Out) (range_py (int (length ?W)))"
    unfolding lm by (rule W)
  have w3: "(ci ?F - i) + (cj ?F - j) \<le> int (length ?W)"
    unfolding lm using m(3) by simp
  have w2: "int (length ?W) \<le> out_len" if "0 \<le> out_len"
    unfolding lm using mn that by simp
  have r: "?W = map (Wr Out) (range_py out_len) \<and>
         int (length (range_py out_len)) = out_len \<and>
         (ci ?F - i) + (cj ?F - j) = out_len" if "0 \<le> out_len" "returns ?M"
    using L that by (simp add: range_py_length out_writes_def)
  have ret: "returns ?M"
    if a: "0 \<le> i \<and> i \<le> x_len \<and> 0 \<le> j \<and> j \<le> y_len \<and>
    out_len \<le> (x_len - i) + (y_len - j) \<and>
    x_len \<le> int (length (h x)) \<and> x_len \<le> int (length (h x_inds)) \<and>
    y_len \<le> int (length (h y)) \<and> y_len \<le> int (length (h y_inds)) \<and>
    out_len \<le> int (length (h out)) \<and> out_len \<le> int (length (h out_inds))"
  proof -
    have co: "cursors_ok x_len y_len (int (length (range_py out_len))) ?s0"
      using a by (simp add: cursors_ok_def range_py_length)
    have "\<exists>s'. merge_loop x_len x x_inds y_len y y_inds out out_inds (range_py out_len) ?s0 = Inr s'"
      by (rule loop_returns [OF _ co]) (use a in \<open>auto simp: range_py_set\<close>)
    then show ?thesis by (auto simp: merge_def returns_def)
  qed
  have step: "\<forall>k s s'. merge_body x_len x x_inds y_len y y_inds out out_inds k s = Inr s' \<longrightarrow>
      (ci s' = ci s + 1 \<and> cj s' = cj s) \<or> (ci s' = ci s \<and> cj s' = cj s + 1)"
    using body_logged_Inr(2) by blast
  have fail: "\<forall>k s e s'. merge_body x_len x x_inds y_len y y_inds out out_inds k s = Inl (e, s') \<longrightarrow>
      ci s' = ci s \<and> cj s' = cj s"
    by (intro allI impI conjI) (erule body_logged_Inl)+
  show ?thesis
    using c w1 w2 w3 r ret step fail by blast
qed

theorem merge_iterations_witness:
  "(0::int) \<le> 6 \<and>
   ((0::int) \<le> 0 \<and> (0::int) \<le> 3 \<and> (0::int) \<le> 0 \<and> (0::int) \<le> 3 \<and>
    (6::int) \<le> (3 - 0) + (3 - 0) \<and>
    3 \<le> int (length (scenario 6 0)) \<and> 3 \<le> int (length (scenario 6 1)) \<and>
    3 \<le> int (length (scenario 6 2)) \<and> 3 \<le> int (length (scenario 6 3)) \<and>
    6 \<le> int (length (scenario 6 4)) \<and> 6 \<le> int (length (scenario 6 5))) \<and>
   returns (merge 3 0 1 3 2 3 6 4 5 0 0 (scenario 6)) \<and>
   out_writes (accesses (final (merge 3 0 1 3 2 3 6 4 5 0 0 (scenario 6))))
     = map (Wr Out) (range_py 6) \<and>
   (ci (final (merge 3 0 1 3 2 3 6 4 5 0 0 (scenario 6))) - 0) +
   (cj (final (merge 3 0 1 3 2 3 6 4 5 0 0 (scenario 6))) - 0) = 6 \<and>
   merge_body 3 0 1 3 2 3 4 5 0 \<lparr>heap = scenario 6, ci = 0, cj = 0, accesses = []\<rparr> =
     Inr (final (merge_body 3 0 1 3 2 3 4 5 0
            \<lparr>heap = scenario 6, ci = 0, cj = 0, accesses = []\<rparr>)) \<and>
   (ci (final (merge_body 3 0 1 3 2 3 4 5 0
            \<lparr>heap = scenario 6, ci = 0, cj = 0, accesses = []\<rparr>)) = 0 + 1 \<and>
    cj (final (merge_body 3 0 1 3 2 3 4 5 0
            \<lparr>heap = scenario 6, ci = 0, cj = 0, accesses = []\<rparr>)) = 0 \<or>
    ci (final (merge_body 3 0 1 3 2 3 4 5 0
            \<lparr>heap = scenario 6, ci = 0, cj = 0, accesses = []\<rparr>)) = 0 \<and>
    cj (final (merge_body 3 0 1 3 2 3 4 5 0
            \<lparr>heap = scenario 6, ci = 0, cj = 0, accesses = []\<rparr>)) = 0 + 1) \<and>
   merge_body 3 0 1 3 2 3 4 5 6 \<lparr>heap = scenario 7, ci = 3, cj = 3, accesses = []\<rparr> =
     Inl (IndexError, final (merge_body 3 0 1 3 2 3 4 5 6
            \<lparr>heap = scenario 7, ci = 3, cj = 3, accesses = []\<rparr>)) \<and>
   ci (final (merge_body 3 0 1 3 2 3 4 5 6
            \<lparr>heap = scenario 7, ci = 3, cj = 3, accesses = []\<rparr>)) = 3 \<and>
   cj (final (merge_body 3 0 1 3 2 3 4 5 6
            \<lparr>heap = scenario 7, ci = 3, cj = 3, accesses = []\<rparr>)) = 3"
proof -
  let ?s0 = "\<lparr>heap = scenario 6, ci = 0, cj = 0, accesses = []\<rparr>"
  let ?sE = "\<lparr>heap = scenario 7, ci = 3, cj = 3, accesses = []\<rparr>"
  have z: "(0::int) \<le> 6" by simp
  have hyp: "(0::int) \<le> 0 \<and> (0::int) \<le> 3 \<and> (0::int) \<le> 0 \<and> (0::int) \<le> 3 \<and>
    (6::int) \<le> (3 - 0) + (3 - 0) \<and>
    3 \<le> int (length (scenario 6 0)) \<and> 3 \<le> int (length (scenario 6 1)) \<and>
    3 \<le> int (length (scenario 6 2)) \<and> 3 \<le> int (length (scenario 6 3)) \<and>
    6 \<le> int (length (scenario 6 4)) \<and> 6 \<le> int (length (scenario 6 5))"
    by (simp add: scenario_def)
  have r: "returns (merge_body 3 0 1 3 2 3 4 5 0 ?s0)"
    by code_simp
  have b: "merge_body 3 0 1 3 2 3 4 5 0 ?s0 = Inr (final (merge_body 3 0 1 3 2 3 4 5 0 ?s0))"
    using r by (cases "merge_body 3 0 1 3 2 3 4 5 0 ?s0") (simp_all add: returns_def final_def)
  have nr: "\<not> returns (merge_body 3 0 1 3 2 3 4 5 6 ?sE)"
    by code_simp
  from not_returns_Inl [OF nr] obtain sf where
    sf: "merge_body 3 0 1 3 2 3 4 5 6 ?sE = Inl (IndexError, sf)" by blast
  have bE: "merge_body 3 0 1 3 2 3 4 5 6 ?sE =
      Inl (IndexError, final (merge_body 3 0 1 3 2 3 4 5 6 ?sE))"
    unfolding sf by (simp add: final_def)
  note t = merge_iterations [where x_len = 3 and x = 0 and x_inds = 1 and y_len = 3 and y = 2
      and y_inds = 3 and out_len = 6 and out = 4 and out_inds = 5 and i = 0 and j = 0
      and h = "scenario 6"]
  have 0: "returns (merge 3 0 1 3 2 3 6 4 5 0 0 (scenario 6))"
    using t hyp by blast
  have 1: "out_writes (accesses (final (merge 3 0 1 3 2 3 6 4 5 0 0 (scenario 6))))
     = map (Wr Out) (range_py 6) \<and>
   (ci (final (merge 3 0 1 3 2 3 6 4 5 0 0 (scenario 6))) - 0) +
   (cj (final (merge 3 0 1 3 2 3 6 4 5 0 0 (scenario 6))) - 0) = 6"
    using t z 0 by blast
  have 2: "ci (final (merge_body 3 0 1 3 2 3 4 5 0 ?s0)) = ci ?s0 + 1 \<and>
    cj (final (merge_body 3 0 1 3 2 3 4 5 0 ?s0)) = cj ?s0 \<or>
    ci (final (merge_body 3 0 1 3 2 3 4 5 0 ?s0)) = ci ?s0 \<and>
    cj (final (merge_body 3 0 1 3 2 3 4 5 0 ?s0)) = cj ?s0 + 1"
    using t b by blast
  have 3: "ci (final (merge_body 3 0 1 3 2 3 4 5 0 ?s0)) = 0 + 1 \<and>
    cj (final (merge_body 3 0 1 3 2 3 4 5 0 ?s0)) = 0 \<or>
    ci (final (merge_body 3 0 1 3 2 3 4 5 0 ?s0)) = 0 \<and>
    cj (final (merge_body 3 0 1 3 2 3 4 5 0 ?s0)) = 0 + 1"
    using 2 by simp
  have 4: "ci (final (merge_body 3 0 1 3 2 3 4 5 6 ?sE)) = ci ?sE \<and>
    cj (final (merge_body 3 0 1 3 2 3 4 5 6 ?sE)) = cj ?sE"
    using t bE by blast
  have 5: "ci (final (merge_body 3 0 1 3 2 3 4 5 6 ?sE)) = 3 \<and>
    cj (final (merge_body 3 0 1 3 2 3 4 5 6 ?sE)) = 3"
    using 4 by simp
  show ?thesis using z hyp 0 1 b 3 bE 5 by blast
qed

text \<open>
  C9 without the restriction to returning calls (exactly \<open>out_len\<close> iterations for
  every non-negative \<open>out_len\<close>) fails when more is asked than remains: on the runs of the scenario, with \<open>out_len = 7\<close>
  and \<open>x\<close> of exactly three cells, the seventh iteration raises at \<open>x[3]\<close>; the call does
  not return, it has written \<open>out\<close> at \<open>0, \<dots>, 5\<close> only, and the cursors have advanced
  by six.
\<close>

theorem merge_iterations_counterexample:
  "(0::int) \<le> 7 \<and>
   \<not> returns (merge 3 0 1 3 2 3 7 4 5 0 0 (scenario 7)) \<and>
   out_writes (accesses (final (merge 3 0 1 3 2 3 7 4 5 0 0 (scenario 7))))
     = map (Wr Out) (range_py 6) \<and>
   (ci (final (merge 3 0 1 3 2 3 7 4 5 0 0 (scenario 7))) - 0) +
   (cj (final (merge 3 0 1 3 2 3 7 4 5 0 0 (scenario 7))) - 0) = 6"
  by code_simp

section \<open>Exhausted runs\<close>

text \<open>
  C6. On a call within the contract that starts with X exhausted (\<open>i = x_len\<close>), the
  call returns and the first \<open>out_len\<close> cells of \<open>out\<close> and \<open>out_inds\<close> are
  \<open>y[j : j + out_len]\<close> and \<open>y_inds[j : j + out_len]\<close>; when it starts with Y exhausted
  (\<open>j = y_len\<close>), they are \<open>x[i : i + out_len]\<close> and \<open>x_inds[i : i + out_len]\<close>.
\<close>

theorem merge_exhaustion:
  assumes pre: "merge_pre x_len x x_inds y_len y y_inds out_len out out_inds i j h"
  shows "(i = x_len \<longrightarrow>
            returns (merge x_len x x_inds y_len y y_inds out_len out out_inds i j h) \<and>
            take (nat out_len)
              (heap (final (merge x_len x x_inds y_len y y_inds out_len out out_inds i j h)) out) =
            take (nat out_len) (drop (nat j) (h y)) \<and>
            take (nat out_len)
              (heap (final (merge x_len x x_inds y_len y y_inds out_len out out_inds i j h)) out_inds) =
            take (nat out_len) (drop (nat j) (h y_inds))) \<and>
         (j = y_len \<longrightarrow>
            returns (merge x_len x x_inds y_len y y_inds out_len out out_inds i j h) \<and>
            take (nat out_len)
              (heap (final (merge x_len x x_inds y_len y y_inds out_len out out_inds i j h)) out) =
            take (nat out_len) (drop (nat i) (h x)) \<and>
            take (nat out_len)
              (heap (final (merge x_len x x_inds y_len y y_inds out_len out out_inds i j h)) out_inds) =
            take (nat out_len) (drop (nat i) (h x_inds)))"
proof -
  let ?R = "run x_len x x_inds y_len y y_inds out out_inds
              \<lparr>heap = h, ci = i, cj = j, accesses = []\<rparr>"
  let ?n = "nat out_len"
  have m: "merge x_len x x_inds y_len y y_inds out_len out out_inds i j h = Inr (?R ?n)"
    by (rule merge_run [OF pre])
  note o = merge_take_out [OF pre]
  have ij: "0 \<le> i" "0 \<le> j" using pre by (simp_all add: merge_pre_def)
  have xe: "take ?n (heap (?R ?n) out) = take ?n (drop (nat j) (h y)) \<and>
            take ?n (heap (?R ?n) out_inds) = take ?n (drop (nat j) (h y_inds))"
    if ix: "i = x_len"
  proof -
    have c: "\<And>p. p < ?n \<Longrightarrow> takes_y x_len x y_len y (?R p) \<and> nat (cj (?R p)) = nat j + p"
    proof -
      fix p assume p: "p < ?n"
      then have "int p \<le> out_len" "int p < out_len" by simp_all
      from run_x_exhausted [OF pre ix this(1)] this(2) ij(2)
      show "takes_y x_len x y_len y (?R p) \<and> nat (cj (?R p)) = nat j + p"
        by (simp add: nat_add_distrib)
    qed
    have sz: "nat j + ?n \<le> length (h y)" "nat j + ?n \<le> length (h y_inds)"
      using pre ix unfolding merge_pre_def by linarith+
    show ?thesis
      unfolding o take_drop_eq_map [OF sz(1)] take_drop_eq_map [OF sz(2)]
      using c by simp
  qed
  have ye: "take ?n (heap (?R ?n) out) = take ?n (drop (nat i) (h x)) \<and>
            take ?n (heap (?R ?n) out_inds) = take ?n (drop (nat i) (h x_inds))"
    if jy: "j = y_len"
  proof -
    have c: "\<And>p. \<not> takes_y x_len x y_len y (?R p) \<and> nat (ci (?R p)) = nat i + p"
      using run_y_exhausted [OF jy, where x_len = x_len and x = x and x_inds = x_inds and y = y
          and y_inds = y_inds and out = out and out_inds = out_inds and h = h and i = i] ij(1)
      by (simp add: nat_add_distrib)
    have sz: "nat i + ?n \<le> length (h x)" "nat i + ?n \<le> length (h x_inds)"
      using pre jy unfolding merge_pre_def by linarith+
    show ?thesis
      unfolding o take_drop_eq_map [OF sz(1)] take_drop_eq_map [OF sz(2)]
      using c by simp
  qed
  show ?thesis
    unfolding m final_Inr using xe ye returns_Inr [of "?R ?n"] by blast
qed


theorem merge_exhaustion_witness:
  "merge_pre 3 0 1 3 2 3 2 4 5 3 1 (scenario 2) \<and> (3::int) = 3 \<and>
   returns (merge 3 0 1 3 2 3 2 4 5 3 1 (scenario 2)) \<and>
   take (nat 2) (heap (final (merge 3 0 1 3 2 3 2 4 5 3 1 (scenario 2))) 4) =
     take (nat 2) (drop (nat 1) (scenario 2 2)) \<and>
   take (nat 2) (heap (final (merge 3 0 1 3 2 3 2 4 5 3 1 (scenario 2))) 5) =
     take (nat 2) (drop (nat 1) (scenario 2 3)) \<and>
   merge_pre 3 0 1 3 2 3 3 4 5 0 3 (scenario 3) \<and>
   returns (merge 3 0 1 3 2 3 3 4 5 0 3 (scenario 3)) \<and>
   take (nat 3) (heap (final (merge 3 0 1 3 2 3 3 4 5 0 3 (scenario 3))) 4) =
     take (nat 3) (drop (nat 0) (scenario 3 0)) \<and>
   take (nat 3) (heap (final (merge 3 0 1 3 2 3 3 4 5 0 3 (scenario 3))) 5) =
     take (nat 3) (drop (nat 0) (scenario 3 1))"
proof -
  have p1: "merge_pre 3 0 1 3 2 3 2 4 5 3 1 (scenario 2)"
    by (simp add: merge_pre_def separate_def scenario_def)
  have p2: "merge_pre 3 0 1 3 2 3 3 4 5 0 3 (scenario 3)"
    by (simp add: merge_pre_def separate_def scenario_def)
  have e: "(3::int) = 3" by simp
  show ?thesis
    using p1 p2 e merge_exhaustion [OF p1] merge_exhaustion [OF p2] by blast
qed

section \<open>Values and indices stay paired\<close>

text \<open>
  C4. Every iteration reads its index from \<open>x_inds\<close> or from \<open>y_inds\<close> exactly once, so
  the index reads of a call, in order (\<open>emitted\<close>), name for each output position the run
  and the cursor position it was filled from. On a call within the contract the call
  returns, there are \<open>out_len\<close> of them, and for every output position \<open>k < out_len\<close>:
  if the \<open>k\<close>-th one is \<open>x_inds[p]\<close> then \<open>p\<close> is a position of the tail of X and
  \<open>out[k] = x[p]\<close>, \<open>out_inds[k] = x_inds[p]\<close>; if it is \<open>y_inds[p]\<close> then \<open>p\<close> is a
  position of the tail of Y and \<open>out[k] = y[p]\<close>, \<open>out_inds[k] = y_inds[p]\<close>. The value
  and the index at an output position come from the same position of the same run.
\<close>

theorem merge_index_pairing:
  assumes pre: "merge_pre x_len x x_inds y_len y y_inds out_len out out_inds i j h"
  shows "returns (merge x_len x x_inds y_len y y_inds out_len out out_inds i j h) \<and>
    length (emitted (accesses
      (final (merge x_len x x_inds y_len y y_inds out_len out out_inds i j h)))) = nat out_len \<and>
    (\<forall>k < nat out_len.
       case emitted (accesses
              (final (merge x_len x x_inds y_len y y_inds out_len out out_inds i j h))) ! k of
         Rd b p \<Rightarrow>
           (b = X_inds \<and> i \<le> p \<and> p < x_len \<and>
            heap (final (merge x_len x x_inds y_len y y_inds out_len out out_inds i j h)) out ! k
              = h x ! nat p \<and>
            heap (final (merge x_len x x_inds y_len y y_inds out_len out out_inds i j h)) out_inds ! k
              = h x_inds ! nat p) \<or>
           (b = Y_inds \<and> j \<le> p \<and> p < y_len \<and>
            heap (final (merge x_len x x_inds y_len y y_inds out_len out out_inds i j h)) out ! k
              = h y ! nat p \<and>
            heap (final (merge x_len x x_inds y_len y y_inds out_len out out_inds i j h)) out_inds ! k
              = h y_inds ! nat p)
       | Wr b p \<Rightarrow> False)"
proof -
  let ?R = "run x_len x x_inds y_len y y_inds out out_inds
              \<lparr>heap = h, ci = i, cj = j, accesses = []\<rparr>"
  let ?n = "nat out_len"
  have m: "merge x_len x x_inds y_len y y_inds out_len out out_inds i j h = Inr (?R ?n)"
    by (rule merge_run [OF pre])
  note e = run_emitted [of x_len x x_inds y_len y y_inds out out_inds h i j ?n]
  have 1: "length (emitted (accesses (?R ?n))) = ?n" using e by simp
  have 2: "case emitted (accesses (?R ?n)) ! k of
         Rd b p \<Rightarrow>
           (b = X_inds \<and> i \<le> p \<and> p < x_len \<and>
            heap (?R ?n) out ! k = h x ! nat p \<and> heap (?R ?n) out_inds ! k = h x_inds ! nat p) \<or>
           (b = Y_inds \<and> j \<le> p \<and> p < y_len \<and>
            heap (?R ?n) out ! k = h y ! nat p \<and> heap (?R ?n) out_inds ! k = h y_inds ! nat p)
       | Wr b p \<Rightarrow> False" if k: "k < ?n" for k
  proof -
    have lt: "int k < out_len" and le: "int ?n \<le> out_len" using k by simp_all
    have ek: "emitted (accesses (?R ?n)) ! k =
        (if takes_y x_len x y_len y (?R k) then Rd Y_inds (cj (?R k)) else Rd X_inds (ci (?R k)))"
      using e k by simp
    note o = run_outputs [OF pre le, rule_format, OF k]
    note r = run_emit_range(1,2) [OF pre lt]
    show ?thesis
    proof (cases "takes_y x_len x y_len y (?R k)")
      case True
      then show ?thesis unfolding ek using o r(1) by simp
    next
      case False
      then show ?thesis unfolding ek using o r(2) by simp
    qed
  qed
  show ?thesis
    unfolding m final_Inr using 1 2 returns_Inr [of "?R ?n"] by blast
qed


theorem merge_index_pairing_witness:
  "merge_pre 3 0 1 3 2 3 6 4 5 0 0 (scenario 6) \<and> (3::nat) < nat 6 \<and>
   returns (merge 3 0 1 3 2 3 6 4 5 0 0 (scenario 6)) \<and>
   length (emitted (accesses (final (merge 3 0 1 3 2 3 6 4 5 0 0 (scenario 6))))) = nat 6 \<and>
   (case emitted (accesses (final (merge 3 0 1 3 2 3 6 4 5 0 0 (scenario 6)))) ! 3 of
      Rd b p \<Rightarrow>
        (b = X_inds \<and> 0 \<le> p \<and> p < 3 \<and>
         heap (final (merge 3 0 1 3 2 3 6 4 5 0 0 (scenario 6))) 4 ! 3 = scenario 6 0 ! nat p \<and>
         heap (final (merge 3 0 1 3 2 3 6 4 5 0 0 (scenario 6))) 5 ! 3 = scenario 6 1 ! nat p) \<or>
        (b = Y_inds \<and> 0 \<le> p \<and> p < 3 \<and>
         heap (final (merge 3 0 1 3 2 3 6 4 5 0 0 (scenario 6))) 4 ! 3 = scenario 6 2 ! nat p \<and>
         heap (final (merge 3 0 1 3 2 3 6 4 5 0 0 (scenario 6))) 5 ! 3 = scenario 6 3 ! nat p)
    | Wr b p \<Rightarrow> False)"
proof -
  have p: "merge_pre 3 0 1 3 2 3 6 4 5 0 0 (scenario 6)"
    by (simp add: merge_pre_def separate_def scenario_def)
  have k: "(3::nat) < nat 6" by simp
  show ?thesis
    using p k merge_index_pairing [OF p] by blast
qed

section \<open>Ties go to X\<close>

text \<open>
  C3. First, one iteration: in a state where neither run is exhausted, the subscripts
  are in range, the output buffers are objects of their own, and \<open>x[i] = y[j]\<close>, the
  body completes, writes \<open>x[i]\<close> and \<open>x_inds[i]\<close> at position \<open>k\<close>, and advances \<open>i\<close>
  and not \<open>j\<close>: the element of X is emitted, the equal element of Y stays at its
  cursor for a later iteration. Then the whole call, within the contract and with X
  ascending: if output position \<open>p\<close> was filled from X and output position \<open>q\<close> from Y
  (as the index reads of the run tell) and the two values are equal, then \<open>p < q\<close>.
\<close>

theorem merge_stable:
  "(0 \<le> ci s \<and> ci s < x_len \<and> 0 \<le> cj s \<and> cj s < y_len \<and>
    ci s < int (length (heap s x)) \<and> ci s < int (length (heap s x_inds)) \<and>
    cj s < int (length (heap s y)) \<and> cj s < int (length (heap s y_inds)) \<and>
    0 \<le> k \<and> k < int (length (heap s out)) \<and> k < int (length (heap s out_inds)) \<and>
    separate x x_inds y y_inds out out_inds \<and>
    heap s x ! nat (ci s) = heap s y ! nat (cj s) \<longrightarrow>
      returns (merge_body x_len x x_inds y_len y y_inds out out_inds k s) \<and>
      ci (final (merge_body x_len x x_inds y_len y y_inds out out_inds k s)) = ci s + 1 \<and>
      cj (final (merge_body x_len x x_inds y_len y y_inds out out_inds k s)) = cj s \<and>
      heap (final (merge_body x_len x x_inds y_len y y_inds out out_inds k s)) out ! nat k
        = heap s x ! nat (ci s) \<and>
      heap (final (merge_body x_len x x_inds y_len y y_inds out out_inds k s)) out_inds ! nat k
        = heap s x_inds ! nat (ci s)) \<and>
   (merge_pre x_len x x_inds y_len y y_inds out_len out out_inds i j h \<and>
    sorted (take (nat x_len) (h x)) \<longrightarrow>
      (\<forall>p q. p < nat out_len \<and> q < nat out_len \<and>
         from_x (emitted (accesses
           (final (merge x_len x x_inds y_len y y_inds out_len out out_inds i j h))) ! p) \<and>
         from_y (emitted (accesses
           (final (merge x_len x x_inds y_len y y_inds out_len out out_inds i j h))) ! q) \<and>
         heap (final (merge x_len x x_inds y_len y y_inds out_len out out_inds i j h)) out ! p =
         heap (final (merge x_len x x_inds y_len y y_inds out_len out out_inds i j h)) out ! q
         \<longrightarrow> p < q))"
proof -
  have step: "returns (merge_body x_len x x_inds y_len y y_inds out out_inds k s) \<and>
      ci (final (merge_body x_len x x_inds y_len y y_inds out out_inds k s)) = ci s + 1 \<and>
      cj (final (merge_body x_len x x_inds y_len y y_inds out out_inds k s)) = cj s \<and>
      heap (final (merge_body x_len x x_inds y_len y y_inds out out_inds k s)) out ! nat k
        = heap s x ! nat (ci s) \<and>
      heap (final (merge_body x_len x x_inds y_len y y_inds out out_inds k s)) out_inds ! nat k
        = heap s x_inds ! nat (ci s)"
    if a: "0 \<le> ci s \<and> ci s < x_len \<and> 0 \<le> cj s \<and> cj s < y_len \<and>
    ci s < int (length (heap s x)) \<and> ci s < int (length (heap s x_inds)) \<and>
    cj s < int (length (heap s y)) \<and> cj s < int (length (heap s y_inds)) \<and>
    0 \<le> k \<and> k < int (length (heap s out)) \<and> k < int (length (heap s out_inds)) \<and>
    separate x x_inds y y_inds out out_inds \<and>
    heap s x ! nat (ci s) = heap s y ! nat (cj s)"
  proof -
    have r: "roomy x_len x x_inds y_len y y_inds out out_inds k s"
      using a by (simp add: roomy_def)
    have k: "0 \<le> k" and sep: "separate x x_inds y y_inds out out_inds" using a by simp_all
    have t: "\<not> takes_y x_len x y_len y s" using a by (simp add: takes_y_def)
    have d: "out \<noteq> out_inds" using sep by (simp add: separate_def)
    have kl: "nat k < length (heap s out)" "nat k < length (heap s out_inds)"
      using a by linarith+
    show ?thesis
      unfolding body_step [OF r k sep] final_Inr
      using t kl
      by (simp add: returns_Inr step_state_ci step_state_cj step_state_heap_out [OF d]
          step_state_heap_out_inds)
  qed
  have call: "p < q"
    if a: "merge_pre x_len x x_inds y_len y y_inds out_len out out_inds i j h \<and>
           sorted (take (nat x_len) (h x))"
      and b: "p < nat out_len \<and> q < nat out_len \<and>
         from_x (emitted (accesses
           (final (merge x_len x x_inds y_len y y_inds out_len out out_inds i j h))) ! p) \<and>
         from_y (emitted (accesses
           (final (merge x_len x x_inds y_len y y_inds out_len out out_inds i j h))) ! q) \<and>
         heap (final (merge x_len x x_inds y_len y y_inds out_len out out_inds i j h)) out ! p =
         heap (final (merge x_len x x_inds y_len y y_inds out_len out out_inds i j h)) out ! q"
    for p q
  proof -
    let ?R = "run x_len x x_inds y_len y y_inds out out_inds
              \<lparr>heap = h, ci = i, cj = j, accesses = []\<rparr>"
    let ?n = "nat out_len"
    from a have pre: "merge_pre x_len x x_inds y_len y y_inds out_len out out_inds i j h"
      and sx: "sorted (take (nat x_len) (h x))" by simp_all
    have m: "merge x_len x x_inds y_len y y_inds out_len out out_inds i j h = Inr (?R ?n)"
      by (rule merge_run [OF pre])
    note b' = b [unfolded m final_Inr]
    have pq: "p < ?n" "q < ?n" using b by simp_all
    then have lt: "int p < out_len" "int q < out_len" and le: "int ?n \<le> out_len" by simp_all
    note e = run_emitted [of x_len x x_inds y_len y y_inds out out_inds h i j ?n]
    have tp: "\<not> takes_y x_len x y_len y (?R p)"
      using b' e pq(1) by (auto simp: from_x_def split: if_splits)
    have tq: "takes_y x_len x y_len y (?R q)"
      using b' e pq(2) by (auto simp: from_y_def split: if_splits)
    have op: "heap (?R ?n) out ! p = h x ! nat (ci (?R p))"
      using run_outputs [OF pre le, rule_format, OF pq(1)] tp by simp
    have oq: "heap (?R ?n) out ! q = h y ! nat (cj (?R q))"
      using run_outputs [OF pre le, rule_format, OF pq(2)] tq by simp
    have eq: "h x ! nat (ci (?R p)) = h y ! nat (cj (?R q))"
      using b' op oq by simp
    have ne: "p \<noteq> q" using tp tq by auto
    show "p < q"
    proof (rule ccontr)
      assume "\<not> p < q"
      then have "q < p" using ne by simp
      from run_y_before_x [OF pre sx this lt(1) tq tp] eq show False by simp
    qed
  qed
  show ?thesis using step call by blast
qed


theorem merge_stable_witness:
  "(0 \<le> ci \<lparr>heap = scenario 6, ci = 1, cj = 1, accesses = []\<rparr> \<and>
    ci \<lparr>heap = scenario 6, ci = 1, cj = 1, accesses = []\<rparr> < 3 \<and>
    0 \<le> cj \<lparr>heap = scenario 6, ci = 1, cj = 1, accesses = []\<rparr> \<and>
    cj \<lparr>heap = scenario 6, ci = 1, cj = 1, accesses = []\<rparr> < 3 \<and>
    ci \<lparr>heap = scenario 6, ci = 1, cj = 1, accesses = []\<rparr>
      < int (length (heap \<lparr>heap = scenario 6, ci = 1, cj = 1, accesses = []\<rparr> 0)) \<and>
    ci \<lparr>heap = scenario 6, ci = 1, cj = 1, accesses = []\<rparr>
      < int (length (heap \<lparr>heap = scenario 6, ci = 1, cj = 1, accesses = []\<rparr> 1)) \<and>
    cj \<lparr>heap = scenario 6, ci = 1, cj = 1, accesses = []\<rparr>
      < int (length (heap \<lparr>heap = scenario 6, ci = 1, cj = 1, accesses = []\<rparr> 2)) \<and>
    cj \<lparr>heap = scenario 6, ci = 1, cj = 1, accesses = []\<rparr>
      < int (length (heap \<lparr>heap = scenario 6, ci = 1, cj = 1, accesses = []\<rparr> 3)) \<and>
    (0::int) \<le> 2 \<and>
    2 < int (length (heap \<lparr>heap = scenario 6, ci = 1, cj = 1, accesses = []\<rparr> 4)) \<and>
    2 < int (length (heap \<lparr>heap = scenario 6, ci = 1, cj = 1, accesses = []\<rparr> 5)) \<and>
    separate 0 1 2 3 4 5 \<and>
    heap \<lparr>heap = scenario 6, ci = 1, cj = 1, accesses = []\<rparr> 0
      ! nat (ci \<lparr>heap = scenario 6, ci = 1, cj = 1, accesses = []\<rparr>) =
    heap \<lparr>heap = scenario 6, ci = 1, cj = 1, accesses = []\<rparr> 2
      ! nat (cj \<lparr>heap = scenario 6, ci = 1, cj = 1, accesses = []\<rparr>)) \<and>
   (returns (merge_body 3 0 1 3 2 3 4 5 2 \<lparr>heap = scenario 6, ci = 1, cj = 1, accesses = []\<rparr>) \<and>
    ci (final (merge_body 3 0 1 3 2 3 4 5 2
          \<lparr>heap = scenario 6, ci = 1, cj = 1, accesses = []\<rparr>)) =
      ci \<lparr>heap = scenario 6, ci = 1, cj = 1, accesses = []\<rparr> + 1 \<and>
    cj (final (merge_body 3 0 1 3 2 3 4 5 2
          \<lparr>heap = scenario 6, ci = 1, cj = 1, accesses = []\<rparr>)) =
      cj \<lparr>heap = scenario 6, ci = 1, cj = 1, accesses = []\<rparr>) \<and>
   (merge_pre 3 0 1 3 2 3 6 4 5 0 0 (scenario 6) \<and> sorted (take (nat 3) (scenario 6 0))) \<and>
   ((2::nat) < nat 6 \<and> (3::nat) < nat 6 \<and>
    from_x (emitted (accesses (final (merge 3 0 1 3 2 3 6 4 5 0 0 (scenario 6)))) ! 2) \<and>
    from_y (emitted (accesses (final (merge 3 0 1 3 2 3 6 4 5 0 0 (scenario 6)))) ! 3) \<and>
    heap (final (merge 3 0 1 3 2 3 6 4 5 0 0 (scenario 6))) 4 ! 2 =
    heap (final (merge 3 0 1 3 2 3 6 4 5 0 0 (scenario 6))) 4 ! 3) \<and>
   (2::nat) < 3"
proof -
  let ?s = "\<lparr>heap = scenario 6, ci = 1, cj = 1, accesses = []\<rparr>"
  have h1: "0 \<le> ci ?s \<and> ci ?s < 3 \<and> 0 \<le> cj ?s \<and> cj ?s < 3 \<and>
    ci ?s < int (length (heap ?s 0)) \<and> ci ?s < int (length (heap ?s 1)) \<and>
    cj ?s < int (length (heap ?s 2)) \<and> cj ?s < int (length (heap ?s 3)) \<and>
    (0::int) \<le> 2 \<and> 2 < int (length (heap ?s 4)) \<and> 2 < int (length (heap ?s 5)) \<and>
    separate 0 1 2 3 4 5 \<and>
    heap ?s 0 ! nat (ci ?s) = heap ?s 2 ! nat (cj ?s)"
    by (simp add: scenario_def separate_def)
  have h2: "merge_pre 3 0 1 3 2 3 6 4 5 0 0 (scenario 6) \<and> sorted (take (nat 3) (scenario 6 0))"
    by (simp add: merge_pre_def separate_def scenario_def)
  have h3: "(2::nat) < nat 6 \<and> (3::nat) < nat 6 \<and>
    from_x (emitted (accesses (final (merge 3 0 1 3 2 3 6 4 5 0 0 (scenario 6)))) ! 2) \<and>
    from_y (emitted (accesses (final (merge 3 0 1 3 2 3 6 4 5 0 0 (scenario 6)))) ! 3) \<and>
    heap (final (merge 3 0 1 3 2 3 6 4 5 0 0 (scenario 6))) 4 ! 2 =
    heap (final (merge 3 0 1 3 2 3 6 4 5 0 0 (scenario 6))) 4 ! 3"
    by code_simp
  note t = merge_stable [where x_len = 3 and x = 0 and x_inds = 1 and y_len = 3 and y = 2
      and y_inds = 3 and out_len = 6 and out = 4 and out_inds = 5 and i = 0 and j = 0
      and h = "scenario 6" and s = ?s and k = 2]
  have c1: "returns (merge_body 3 0 1 3 2 3 4 5 2 ?s) \<and>
    ci (final (merge_body 3 0 1 3 2 3 4 5 2 ?s)) = ci ?s + 1 \<and>
    cj (final (merge_body 3 0 1 3 2 3 4 5 2 ?s)) = cj ?s"
    using t h1 by blast
  have c2: "(2::nat) < 3"
    using t h2 h3 by blast
  show ?thesis using h1 h2 h3 c1 c2 by blast
qed

section \<open>The output is the head of the sorted merge\<close>

text \<open>
  C1. On a call within the contract, with both runs ascending, the call returns, the
  first \<open>out_len\<close> cells of \<open>out\<close> are ascending, and they are the first \<open>out_len\<close>
  elements of the sorted list of the elements of the two tails \<open>x[i : x_len]\<close> and
  \<open>y[j : y_len]\<close>.
\<close>

theorem merge_sorted_prefix:
  assumes pre: "merge_pre x_len x x_inds y_len y y_inds out_len out out_inds i j h"
    and sx: "sorted (take (nat x_len) (h x))" and sy: "sorted (take (nat y_len) (h y))"
  shows "returns (merge x_len x x_inds y_len y y_inds out_len out out_inds i j h) \<and>
    sorted (take (nat out_len)
      (heap (final (merge x_len x x_inds y_len y y_inds out_len out out_inds i j h)) out)) \<and>
    take (nat out_len)
      (heap (final (merge x_len x x_inds y_len y y_inds out_len out out_inds i j h)) out) =
    take (nat out_len)
      (sort (drop (nat i) (take (nat x_len) (h x)) @ drop (nat j) (take (nat y_len) (h y))))"
proof -
  let ?R = "run x_len x x_inds y_len y y_inds out out_inds
              \<lparr>heap = h, ci = i, cj = j, accesses = []\<rparr>"
  let ?n = "nat out_len"
  let ?V = "\<lambda>p. if takes_y x_len x y_len y (?R p) then h y ! nat (cj (?R p))
                 else h x ! nat (ci (?R p))"
  let ?S = "sort (drop (nat i) (take (nat x_len) (h x)) @ drop (nat j) (take (nat y_len) (h y)))"
  have m: "merge x_len x x_inds y_len y y_inds out_len out out_inds i j h = Inr (?R ?n)"
    by (rule merge_run [OF pre])
  have o: "take ?n (heap (?R ?n) out) = map ?V [0..<?n]"
    by (rule merge_take_out(1) [OF pre])
  have e: "take ?n (heap (?R ?n) out) = take ?n ?S"
  proof (cases "0 \<le> out_len")
    case True
    then have le: "int ?n \<le> out_len" by simp
    have "map ?V [0..<?n] @
            sort (drop (nat (ci (?R ?n))) (take (nat x_len) (h x)) @
                  drop (nat (cj (?R ?n))) (take (nat y_len) (h y))) = ?S"
      by (rule run_sort_inv [OF pre sx sy le])
    then have "take ?n ?S = take ?n (map ?V [0..<?n] @
            sort (drop (nat (ci (?R ?n))) (take (nat x_len) (h x)) @
                  drop (nat (cj (?R ?n))) (take (nat y_len) (h y))))"
      by simp
    also have "\<dots> = map ?V [0..<?n]" by simp
    finally show ?thesis using o by simp
  next
    case False
    then show ?thesis by simp
  qed
  have s: "sorted (take ?n (heap (?R ?n) out))"
    unfolding e by (simp add: sorted_wrt_take)
  show ?thesis
    unfolding m final_Inr using e s returns_Inr [of "?R ?n"] by blast
qed

theorem merge_sorted_prefix_witness:
  "merge_pre 3 0 1 3 2 3 4 4 5 1 0 (scenario 4) \<and>
   sorted (take (nat 3) (scenario 4 0)) \<and> sorted (take (nat 3) (scenario 4 2)) \<and>
   returns (merge 3 0 1 3 2 3 4 4 5 1 0 (scenario 4)) \<and>
   sorted (take (nat 4) (heap (final (merge 3 0 1 3 2 3 4 4 5 1 0 (scenario 4))) 4)) \<and>
   take (nat 4) (heap (final (merge 3 0 1 3 2 3 4 4 5 1 0 (scenario 4))) 4) =
   take (nat 4) (sort (drop (nat 1) (take (nat 3) (scenario 4 0)) @
                       drop (nat 0) (take (nat 3) (scenario 4 2))))"
proof -
  have p: "merge_pre 3 0 1 3 2 3 4 4 5 1 0 (scenario 4)"
    by (simp add: merge_pre_def separate_def scenario_def)
  have sx: "sorted (take (nat 3) (scenario 4 0))" by (simp add: scenario_def)
  have sy: "sorted (take (nat 3) (scenario 4 2))" by (simp add: scenario_def)
  show ?thesis
    using p sx sy merge_sorted_prefix [OF p sx sy] by blast
qed

section \<open>The test does not read an exhausted run\<close>

text \<open>
  C10. In a state where X is exhausted and Y is not, the test is true without any
  subscript evaluated: it returns the state it was given, no access recorded. In a
  state where Y is exhausted it is false, again without any subscript evaluated. So the
  test succeeds also where the subscript it skips would raise: \<open>x[i]\<close> with \<open>i = x_len\<close>
  in a buffer of exactly \<open>x_len\<close> cells, \<open>y[j]\<close> with \<open>j = y_len\<close> in one of exactly
  \<open>y_len\<close> cells.
\<close>

theorem merge_test_short_circuit:
  "(ci s = x_len \<and> cj s < y_len \<longrightarrow> merge_test x_len x y_len y s = Inr (True, s)) \<and>
   (y_len \<le> cj s \<longrightarrow> merge_test x_len x y_len y s = Inr (False, s)) \<and>
   (ci s = x_len \<and> int (length (heap s x)) = x_len \<longrightarrow>
      getitem (heap s x) (ci s) = Inl IndexError) \<and>
   (cj s = y_len \<and> int (length (heap s y)) = y_len \<longrightarrow>
      getitem (heap s y) (cj s) = Inl IndexError)"
  by (auto simp: merge_test_def getitem_def)

theorem merge_test_short_circuit_witness:
  "(ci \<lparr>heap = scenario 6, ci = 3, cj = 2, accesses = []\<rparr> = 3 \<and>
    cj \<lparr>heap = scenario 6, ci = 3, cj = 2, accesses = []\<rparr> < 3) \<and>
   int (length (heap \<lparr>heap = scenario 6, ci = 3, cj = 2, accesses = []\<rparr> 0)) = 3 \<and>
   merge_test 3 0 3 2 \<lparr>heap = scenario 6, ci = 3, cj = 2, accesses = []\<rparr> =
     Inr (True, \<lparr>heap = scenario 6, ci = 3, cj = 2, accesses = []\<rparr>) \<and>
   getitem (heap \<lparr>heap = scenario 6, ci = 3, cj = 2, accesses = []\<rparr> 0)
     (ci \<lparr>heap = scenario 6, ci = 3, cj = 2, accesses = []\<rparr>) = Inl IndexError \<and>
   (3 \<le> cj \<lparr>heap = scenario 6, ci = 1, cj = 3, accesses = []\<rparr> \<and>
    cj \<lparr>heap = scenario 6, ci = 1, cj = 3, accesses = []\<rparr> = 3) \<and>
   int (length (heap \<lparr>heap = scenario 6, ci = 1, cj = 3, accesses = []\<rparr> 2)) = 3 \<and>
   merge_test 3 0 3 2 \<lparr>heap = scenario 6, ci = 1, cj = 3, accesses = []\<rparr> =
     Inr (False, \<lparr>heap = scenario 6, ci = 1, cj = 3, accesses = []\<rparr>) \<and>
   getitem (heap \<lparr>heap = scenario 6, ci = 1, cj = 3, accesses = []\<rparr> 2)
     (cj \<lparr>heap = scenario 6, ci = 1, cj = 3, accesses = []\<rparr>) = Inl IndexError"
proof -
  let ?s1 = "\<lparr>heap = scenario 6, ci = 3, cj = 2, accesses = []\<rparr>"
  let ?s2 = "\<lparr>heap = scenario 6, ci = 1, cj = 3, accesses = []\<rparr>"
  have h1: "ci ?s1 = 3 \<and> cj ?s1 < 3" by simp
  have h2: "3 \<le> cj ?s2 \<and> cj ?s2 = 3" by simp
  have l: "int (length (heap ?s1 0)) = 3" "int (length (heap ?s2 2)) = 3"
    by (simp_all add: scenario_def)
  show ?thesis
    using h1 h2 l
      merge_test_short_circuit [where s = ?s1 and x_len = 3 and y_len = 3 and x = 0 and y = 2]
      merge_test_short_circuit [where s = ?s2 and x_len = 3 and y_len = 3 and x = 0 and y = 2]
    by blast
qed

end
